theory Spec2Isabelle
  imports Complex_Main "HOL-Library.Multiset"
begin

section \<open>Shared vocabulary (types.ts)\<close>

datatype UnoColor = Red | Green | Blue | Yellow

definition UNO_COLORS :: "UnoColor list" where
  "UNO_COLORS = [Red, Green, Blue, Yellow]"

text \<open>\<^verbatim>\<open>UnoValue\<close> is the union of the literals 0..9; a rank is a natural number here and
  \<^verbatim>\<open>UNO_VALUES\<close> lists the ten ranks the deck is built from.\<close>

type_synonym UnoValue = nat

definition UNO_VALUES :: "UnoValue list" where
  "UNO_VALUES = [0, 1, 2, 3, 4, 5, 6, 7, 8, 9]"

record Card =
  card_id :: string
  color :: UnoColor
  rank :: UnoValue

type_synonym PlayerId = string
type_synonym RoomId = string

datatype GamePhase = WaitingForPlayer | ReadyToStart | InProgress | Finished

record PlayerState =
  player_id :: PlayerId
  hand :: "Card list"

text \<open>\<^verbatim>\<open>activePlayerId\<close> is declared a \<^verbatim>\<open>PlayerId\<close>; \<^verbatim>\<open>startGame\<close> stores
  \<^verbatim>\<open>playerOrder[0]\<close> in it, which is \<^verbatim>\<open>undefined\<close> for an empty turn order, so the field
  is an optional id (\<open>None\<close> for \<^verbatim>\<open>undefined\<close>).\<close>

record TurnState =
  activePlayerId :: "PlayerId option"
  hasDrawnCard :: bool

record GameState =
  roomId :: RoomId
  phase :: GamePhase
  players :: "PlayerState list"
  playerOrder :: "PlayerId list"
  drawPile :: "Card list"
  discardPile :: "Card list"
  currentColor :: "UnoColor option"
  currentValue :: "UnoValue option"
  winnerId :: "PlayerId option"
  turn :: "TurnState option"
  createdAt :: int
  updatedAt :: int

text \<open>The error kinds of \<^verbatim>\<open>GameErrorCode\<close>. A \<^verbatim>\<open>GameError\<close> also carries a fixed
  human-readable message per call site; no operation reads it, and it is left out.\<close>

datatype GameErrorCode =
    GAME_NOT_READY
  | GAME_ALREADY_STARTED
  | PLAYER_ALREADY_JOINED
  | ROOM_FULL
  | NOT_ENOUGH_PLAYERS
  | NOT_PLAYER_TURN
  | INVALID_CARD
  | CARD_NOT_PLAYABLE
  | CARD_NOT_FOUND
  | MUST_DRAW_FIRST
  | ALREADY_DREW_CARD
  | NO_PLAYABLE_CARDS
  | DRAW_PILE_EMPTY
  | NO_CARDS_TO_DRAW

text \<open>\<^verbatim>\<open>Result<T>\<close>: \<open>Inl\<close> is \<^verbatim>\<open>{ ok: false, error }\<close>, \<open>Inr\<close> is
  \<^verbatim>\<open>{ ok: true, value }\<close>.\<close>

type_synonym 'a Result = "GameErrorCode + 'a"

section \<open>Deck module (deck.ts)\<close>

subsection \<open>The randomness source\<close>

text \<open>\<^verbatim>\<open>RandomFn = () => number\<close> is a function the caller supplies, by contract
  returning a value in the half-open interval from 0 to 1 on every call. The type
  \<open>unit_real\<close> holds exactly those values, taken as real numbers (the rounding of
  IEEE doubles is not modelled), and a source is the sequence of values that it returns
  to the successive calls an operation makes: \<open>random k\<close> is what call number \<open>k\<close>
  (from 0) returns. Where the code defaults the argument to \<^verbatim>\<open>Math.random\<close>, the model
  takes the source explicitly.\<close>

typedef unit_real = "{r :: real. 0 \<le> r \<and> r < 1}"
  by (rule exI [of _ 0]) simp

setup_lifting type_definition_unit_real

lift_definition unit_zero :: unit_real is "0 :: real"
  by simp

lift_definition unit_half :: unit_real is "1 / 2 :: real"
  by simp

text \<open>\<^verbatim>\<open>Math.floor(random() * n)\<close> for the value \<open>r\<close> that the call returned.\<close>

lift_definition floor_scaled :: "unit_real \<Rightarrow> nat \<Rightarrow> nat" is
  "\<lambda>r n. nat \<lfloor>r * real n\<rfloor>" .

type_synonym RandomFn = "nat \<Rightarrow> unit_real"

subsection \<open>createDeck\<close>

fun digit_char :: "nat \<Rightarrow> char" where
  "digit_char n = char_of (48 + n)"

text \<open>The decimal rendering of a counter inside the template string.\<close>

fun decimal :: "nat \<Rightarrow> string" where
  "decimal n = (if n < 10 then [digit_char n] else decimal (n div 10) @ [digit_char (n mod 10)])"

definition make_card :: "nat \<Rightarrow> UnoColor \<Rightarrow> UnoValue \<Rightarrow> Card" where
  "make_card n c v = \<lparr>card_id = ''card-'' @ decimal n, color = c, rank = v\<rparr>"

text \<open>The inner loop over \<^verbatim>\<open>UNO_VALUES\<close>: rank 0 is skipped, every other rank pushes two
  cards. The pair is \<^verbatim>\<open>(cards, idCounter)\<close>.\<close>

fun push_values :: "UnoColor \<Rightarrow> UnoValue list \<Rightarrow> Card list \<times> nat \<Rightarrow> Card list \<times> nat" where
  "push_values c [] acc = acc"
| "push_values c (v # vs) (cards, n) =
     (if v = 0 then push_values c vs (cards, n)
      else push_values c vs (cards @ [make_card n c v, make_card (n + 1) c v], n + 2))"

text \<open>The outer loop over \<^verbatim>\<open>UNO_COLORS\<close>: one rank-0 card, then the inner loop.\<close>

fun push_colors :: "UnoColor list \<Rightarrow> Card list \<times> nat \<Rightarrow> Card list \<times> nat" where
  "push_colors [] acc = acc"
| "push_colors (c # cs) (cards, n) =
     push_colors cs (push_values c UNO_VALUES (cards @ [make_card n c 0], n + 1))"

definition createDeck :: "Card list" where
  "createDeck = fst (push_colors UNO_COLORS ([], 0))"

subsection \<open>shuffle and drawTopCard\<close>

text \<open>The loop \<^verbatim>\<open>for (i = copy.length - 1; i > 0; i -= 1)\<close>; \<open>k\<close> counts the calls of
  the source made so far. Both reads of the swap happen before its two writes.\<close>

fun shuffle_loop :: "nat \<Rightarrow> RandomFn \<Rightarrow> nat \<Rightarrow> 'a list \<Rightarrow> 'a list" where
  "shuffle_loop 0 random k copy = copy"
| "shuffle_loop (Suc m) random k copy =
     (let i = Suc m;
          j = floor_scaled (random k) (i + 1)
      in shuffle_loop m random (k + 1) (copy[i := copy ! j, j := copy ! i]))"

definition shuffle :: "'a list \<Rightarrow> RandomFn \<Rightarrow> 'a list" where
  "shuffle items random = shuffle_loop (length items - 1) random 0 items"

text \<open>\<^verbatim>\<open>items.pop()\<close>: the removed last element (\<open>None\<close> for \<^verbatim>\<open>undefined\<close> on an empty
  array) and the array that is left.\<close>

definition drawTopCard :: "'a list \<Rightarrow> 'a option \<times> 'a list" where
  "drawTopCard items = (if items = [] then (None, []) else (Some (last items), butlast items))"

section \<open>Rules module (game.ts)\<close>

definition CARDS_PER_PLAYER :: nat where
  "CARDS_PER_PLAYER = 7"

text \<open>\<^verbatim>\<open>Array.prototype.findIndex\<close>: the first index whose element satisfies the
  predicate, \<open>None\<close> for \<^verbatim>\<open>-1\<close>.\<close>

fun findIndex :: "('a \<Rightarrow> bool) \<Rightarrow> 'a list \<Rightarrow> nat option" where
  "findIndex P [] = None"
| "findIndex P (x # xs) = (if P x then Some 0 else map_option Suc (findIndex P xs))"

definition findPlayerIndex :: "GameState \<Rightarrow> PlayerId \<Rightarrow> nat option" where
  "findPlayerIndex state playerId =
     findIndex (\<lambda>player. player_id player = playerId) (players state)"

text \<open>\<^verbatim>\<open>order.indexOf(currentId)\<close> is \<^verbatim>\<open>-1\<close> for \<^verbatim>\<open>undefined\<close>, since the order holds
  strings only.\<close>

definition getNextPlayerId :: "GameState \<Rightarrow> PlayerId option \<Rightarrow> PlayerId option" where
  "getNextPlayerId state currentId =
     (let order = playerOrder state
      in case currentId of
           None \<Rightarrow> currentId
         | Some cur \<Rightarrow>
             (case findIndex (\<lambda>p. p = cur) order of
                None \<Rightarrow> currentId
              | Some idx \<Rightarrow> Some (order ! ((idx + 1) mod length order))))"

definition isCardPlayable :: "Card \<Rightarrow> UnoColor option \<Rightarrow> UnoValue option \<Rightarrow> bool" where
  "isCardPlayable crd curColor curValue \<longleftrightarrow>
     Some (color crd) = curColor \<or> Some (rank crd) = curValue"

definition ensureActivePlayer :: "GameState \<Rightarrow> PlayerId \<Rightarrow> unit Result" where
  "ensureActivePlayer state playerId =
     (case turn state of
        None \<Rightarrow> Inl NOT_PLAYER_TURN
      | Some t \<Rightarrow> if activePlayerId t \<noteq> Some playerId then Inl NOT_PLAYER_TURN else Inr ())"

text \<open>\<^verbatim>\<open>Date.now()\<close> reads the clock; every operation that refreshes the timestamp takes
  the value read as its last argument \<open>now\<close>.\<close>

definition refreshTimestamp :: "GameState \<Rightarrow> int \<Rightarrow> GameState" where
  "refreshTimestamp state now = state\<lparr>updatedAt := now\<rparr>"

text \<open>The operations mutate the one state object in place and return a result. Each
  model returns the result together with the state as the call leaves it, also when the
  result is a failure.\<close>

definition replenishDrawPile :: "GameState \<Rightarrow> RandomFn \<Rightarrow> unit Result \<times> GameState" where
  "replenishDrawPile state random =
     (let discardSize = length (discardPile state)
      in if discardSize \<le> 1 then (Inl NO_CARDS_TO_DRAW, state)
         else
           (let topCard = discardPile state ! (discardSize - 1);
                rest = take (discardSize - 1) (discardPile state)
            in (Inr (), state\<lparr>drawPile := shuffle rest random, discardPile := [topCard]\<rparr>)))"

text \<open>\<^verbatim>\<open>createGame\<close> reads the clock twice, for \<^verbatim>\<open>createdAt\<close> and \<^verbatim>\<open>updatedAt\<close>.\<close>

definition createGame :: "RoomId \<Rightarrow> PlayerId \<Rightarrow> int \<Rightarrow> int \<Rightarrow> GameState" where
  "createGame room hostId now1 now2 =
     \<lparr>roomId = room, phase = WaitingForPlayer,
      players = [\<lparr>player_id = hostId, hand = []\<rparr>],
      playerOrder = [hostId], drawPile = [], discardPile = [],
      currentColor = None, currentValue = None, winnerId = None, turn = None,
      createdAt = now1, updatedAt = now2\<rparr>"

definition joinGame :: "GameState \<Rightarrow> PlayerId \<Rightarrow> int \<Rightarrow> unit Result \<times> GameState" where
  "joinGame state playerId now =
     (if phase state \<noteq> WaitingForPlayer \<and> phase state \<noteq> ReadyToStart
        then (Inl GAME_ALREADY_STARTED, state)
      else if findPlayerIndex state playerId \<noteq> None
        then (Inl PLAYER_ALREADY_JOINED, state)
      else if length (players state) \<ge> 2
        then (Inl ROOM_FULL, state)
      else
        (let s1 = state\<lparr>players := players state @ [\<lparr>player_id = playerId, hand = []\<rparr>]\<rparr>;
             s2 = s1\<lparr>playerOrder := playerOrder s1 @ [playerId]\<rparr>;
             s3 = s2\<lparr>phase := (if length (players s2) = 2 then ReadyToStart
                                else WaitingForPlayer)\<rparr>
         in (Inr (), refreshTimestamp s3 now)))"

text \<open>\<^verbatim>\<open>state.players[playerIndex]?.hand.push(card)\<close>: for \<^verbatim>\<open>-1\<close> the optional chain
  skips the push and the card goes nowhere.\<close>

definition pushToHand :: "GameState \<Rightarrow> nat option \<Rightarrow> Card \<Rightarrow> GameState" where
  "pushToHand state playerIndex crd =
     (case playerIndex of
        None \<Rightarrow> state
      | Some i \<Rightarrow>
          state\<lparr>players :=
            (players state)[i := (players state ! i)\<lparr>hand := hand (players state ! i) @ [crd]\<rparr>]\<rparr>)"

text \<open>The inner dealing loop, over the turn order: \<open>Inl\<close> is the early return on an
  exhausted deck, with the state as the cards dealt so far have left it.\<close>

fun deal_round :: "PlayerId list \<Rightarrow> Card list \<times> GameState \<Rightarrow> GameState + Card list \<times> GameState" where
  "deal_round [] acc = Inr acc"
| "deal_round (playerId # rest) (deck, state) =
     (case drawTopCard deck of
        (None, _) \<Rightarrow> Inl state
      | (Some crd, deck') \<Rightarrow>
          deal_round rest (deck', pushToHand state (findPlayerIndex state playerId) crd))"

text \<open>The outer dealing loop, \<^verbatim>\<open>CARDS_PER_PLAYER\<close> rounds.\<close>

fun deal_rounds :: "nat \<Rightarrow> Card list \<times> GameState \<Rightarrow> GameState + Card list \<times> GameState" where
  "deal_rounds 0 acc = Inr acc"
| "deal_rounds (Suc n) (deck, state) =
     (case deal_round (playerOrder state) (deck, state) of
        Inl st \<Rightarrow> Inl st
      | Inr acc \<Rightarrow> deal_rounds n acc)"

definition firstOfOrder :: "PlayerId list \<Rightarrow> PlayerId option" where
  "firstOfOrder order = (case order of [] \<Rightarrow> None | p # _ \<Rightarrow> Some p)"

definition startGame :: "GameState \<Rightarrow> RandomFn \<Rightarrow> int \<Rightarrow> unit Result \<times> GameState" where
  "startGame state random now =
     (if length (players state) < 2 then (Inl NOT_ENOUGH_PLAYERS, state)
      else if phase state = InProgress \<or> phase state = Finished
        then (Inl GAME_ALREADY_STARTED, state)
      else
        (case deal_rounds CARDS_PER_PLAYER (shuffle createDeck random, state) of
           Inl st \<Rightarrow> (Inl DRAW_PILE_EMPTY, st)
         | Inr (deck, st) \<Rightarrow>
             (case drawTopCard deck of
                (None, _) \<Rightarrow> (Inl DRAW_PILE_EMPTY, st)
              | (Some firstDiscard, deck') \<Rightarrow>
                  (Inr (),
                   refreshTimestamp
                     (st\<lparr>drawPile := deck', discardPile := [firstDiscard],
                         currentColor := Some (color firstDiscard),
                         currentValue := Some (rank firstDiscard),
                         phase := InProgress, winnerId := None,
                         turn := Some \<lparr>activePlayerId = firstOfOrder (playerOrder st),
                                       hasDrawnCard = False\<rparr>\<rparr>)
                     now))))"

definition listPlayableCards :: "GameState \<Rightarrow> PlayerId \<Rightarrow> Card list Result" where
  "listPlayableCards state playerId =
     (if currentColor state = None \<or> currentValue state = None then Inl GAME_NOT_READY
      else
        (case findPlayerIndex state playerId of
           None \<Rightarrow> Inl PLAYER_ALREADY_JOINED
         | Some i \<Rightarrow>
             Inr (filter (\<lambda>crd. isCardPlayable crd (currentColor state) (currentValue state))
                    (hand (players state ! i)))))"

definition advanceTurn :: "GameState \<Rightarrow> GameState" where
  "advanceTurn state =
     (case turn state of
        None \<Rightarrow> state
      | Some t \<Rightarrow>
          state\<lparr>turn := Some \<lparr>activePlayerId = getNextPlayerId state (activePlayerId t),
                               hasDrawnCard = False\<rparr>\<rparr>)"

text \<open>\<^verbatim>\<open>hand.splice(cardIndex, 1)\<close> for an index inside the array.\<close>

definition splice1 :: "nat \<Rightarrow> 'a list \<Rightarrow> 'a list" where
  "splice1 i xs = take i xs @ drop (Suc i) xs"

definition playCard :: "GameState \<Rightarrow> PlayerId \<Rightarrow> string \<Rightarrow> int \<Rightarrow> unit Result \<times> GameState" where
  "playCard state playerId cardId now =
     (if phase state \<noteq> InProgress then (Inl GAME_NOT_READY, state)
      else
        (case ensureActivePlayer state playerId of
           Inl e \<Rightarrow> (Inl e, state)
         | Inr _ \<Rightarrow>
             (case findPlayerIndex state playerId of
                None \<Rightarrow> (Inl PLAYER_ALREADY_JOINED, state)
              | Some playerIndex \<Rightarrow>
                  (let player = players state ! playerIndex
                   in case findIndex (\<lambda>crd. card_id crd = cardId) (hand player) of
                        None \<Rightarrow> (Inl CARD_NOT_FOUND, state)
                      | Some cardIndex \<Rightarrow>
                          (let crd = hand player ! cardIndex
                           in if \<not> isCardPlayable crd (currentColor state) (currentValue state)
                                then (Inl CARD_NOT_PLAYABLE, state)
                              else
                                (let hand' = splice1 cardIndex (hand player);
                                     s1 = state\<lparr>players :=
                                            (players state)[playerIndex := player\<lparr>hand := hand'\<rparr>]\<rparr>;
                                     s2 = s1\<lparr>discardPile := discardPile s1 @ [crd]\<rparr>;
                                     s3 = s2\<lparr>currentColor := Some (color crd),
                                            currentValue := Some (rank crd)\<rparr>;
                                     s4 = (if length hand' = 0
                                           then s3\<lparr>phase := Finished,
                                                  winnerId := Some playerId, turn := None\<rparr>
                                           else advanceTurn s3)
                                 in (Inr (), refreshTimestamp s4 now)))))))"

text \<open>\<^verbatim>\<open>DrawCardResult\<close> holds the state object itself, the drawn card and its
  playability; the model's value is the pair of the last two.\<close>

definition drawCard ::
  "GameState \<Rightarrow> PlayerId \<Rightarrow> RandomFn \<Rightarrow> int \<Rightarrow> (Card \<times> bool) Result \<times> GameState" where
  "drawCard state playerId random now =
     (if phase state \<noteq> InProgress then (Inl GAME_NOT_READY, state)
      else
        (case ensureActivePlayer state playerId of
           Inl e \<Rightarrow> (Inl e, state)
         | Inr _ \<Rightarrow>
             (case turn state of
                None \<Rightarrow> (Inl GAME_NOT_READY, state)
              | Some t \<Rightarrow>
                  if hasDrawnCard t then (Inl ALREADY_DREW_CARD, state)
                  else if (case listPlayableCards state playerId of
                             Inl _ \<Rightarrow> False
                           | Inr playable \<Rightarrow> length playable > 0)
                    then (Inl MUST_DRAW_FIRST, state)
                  else
                    (case (if length (drawPile state) = 0 then replenishDrawPile state random
                           else (Inr (), state)) of
                       (Inl e, s1) \<Rightarrow> (Inl e, s1)
                     | (Inr _, s1) \<Rightarrow>
                         (case drawTopCard (drawPile s1) of
                            (None, _) \<Rightarrow> (Inl DRAW_PILE_EMPTY, s1)
                          | (Some crd, pile') \<Rightarrow>
                              (let s2 = s1\<lparr>drawPile := pile'\<rparr>
                               in case findPlayerIndex s2 playerId of
                                    None \<Rightarrow> (Inl PLAYER_ALREADY_JOINED, s2)
                                  | Some playerIndex \<Rightarrow>
                                      (let s3 = pushToHand s2 (Some playerIndex) crd;
                                           s4 = s3\<lparr>turn := Some (t\<lparr>hasDrawnCard := True\<rparr>)\<rparr>;
                                           playableAfterDraw =
                                             isCardPlayable crd (currentColor s4) (currentValue s4)
                                       in (Inr (crd, playableAfterDraw),
                                           refreshTimestamp s4 now))))))))"

definition passTurn :: "GameState \<Rightarrow> PlayerId \<Rightarrow> int \<Rightarrow> unit Result \<times> GameState" where
  "passTurn state playerId now =
     (if phase state \<noteq> InProgress then (Inl GAME_NOT_READY, state)
      else
        (case ensureActivePlayer state playerId of
           Inl e \<Rightarrow> (Inl e, state)
         | Inr _ \<Rightarrow>
             if \<not> (case turn state of None \<Rightarrow> False | Some t \<Rightarrow> hasDrawnCard t)
               then (Inl MUST_DRAW_FIRST, state)
             else (Inr (), refreshTimestamp (advanceTurn state) now)))"

section \<open>The deck module on a store of arrays\<close>

text \<open>\<^verbatim>\<open>shuffle\<close> copies its argument (\<^verbatim>\<open>[...items]\<close>) and swaps inside the copy. To
  speak about the argument array after the call, arrays live in a store: an address
  holds an array, \<open>fresh\<close> is the next unused address. \<open>shuffle_at\<close> is the same code
  as \<open>shuffle\<close>, with the allocation of the copy and every write of the loop made
  explicit; it returns the address of the copy and the store the call leaves.\<close>

record 'a store =
  cells :: "nat \<Rightarrow> 'a list"
  fresh :: nat

fun shuffle_loop_at :: "nat \<Rightarrow> RandomFn \<Rightarrow> nat \<Rightarrow> nat \<Rightarrow> 'a store \<Rightarrow> 'a store" where
  "shuffle_loop_at 0 random k copy st = st"
| "shuffle_loop_at (Suc m) random k copy st =
     (let i = Suc m;
          j = floor_scaled (random k) (i + 1);
          arr = cells st copy
      in shuffle_loop_at m random (k + 1) copy
           (st\<lparr>cells := (cells st)(copy := arr[i := arr ! j, j := arr ! i])\<rparr>))"

definition shuffle_at :: "'a store \<Rightarrow> nat \<Rightarrow> RandomFn \<Rightarrow> nat \<times> 'a store" where
  "shuffle_at st items random =
     (let copy = fresh st;
          st1 = st\<lparr>cells := (cells st)(copy := cells st items), fresh := Suc (fresh st)\<rparr>
      in (copy, shuffle_loop_at (length (cells st1 copy) - 1) random 0 copy st1))"

section \<open>Notions the properties are stated with\<close>

text \<open>Every card of a game: all hands in seating order, then the draw pile, then the
  discard pile.\<close>

definition all_cards :: "GameState \<Rightarrow> Card list" where
  "all_cards s = concat (map hand (players s)) @ drawPile s @ discardPile s"

text \<open>How many cards of a list have a given color and rank.\<close>

definition count_kind :: "Card list \<Rightarrow> UnoColor \<Rightarrow> UnoValue \<Rightarrow> nat" where
  "count_kind cards c v = length (filter (\<lambda>k. color k = c \<and> rank k = v) cards)"

fun phase_rank :: "GamePhase \<Rightarrow> nat" where
  "phase_rank WaitingForPlayer = 0"
| "phase_rank ReadyToStart = 1"
| "phase_rank InProgress = 2"
| "phase_rank Finished = 3"

text \<open>One call of the engine on a state, and the state it leaves.\<close>

datatype Call =
    Join PlayerId int
  | Start RandomFn int
  | Play PlayerId string int
  | Draw PlayerId RandomFn int
  | Pass PlayerId int

fun failed :: "'a Result \<times> GameState \<Rightarrow> bool" where
  "failed (Inl e, s) = True"
| "failed (Inr v, s) = False"

fun call_failed :: "Call \<Rightarrow> GameState \<Rightarrow> bool" where
  "call_failed (Join p now) s = failed (joinGame s p now)"
| "call_failed (Start random now) s = failed (startGame s random now)"
| "call_failed (Play p cid now) s = failed (playCard s p cid now)"
| "call_failed (Draw p random now) s = failed (drawCard s p random now)"
| "call_failed (Pass p now) s = failed (passTurn s p now)"

fun after_call :: "Call \<Rightarrow> GameState \<Rightarrow> GameState" where
  "after_call (Join p now) s = snd (joinGame s p now)"
| "after_call (Start random now) s = snd (startGame s random now)"
| "after_call (Play p cid now) s = snd (playCard s p cid now)"
| "after_call (Draw p random now) s = snd (drawCard s p random now)"
| "after_call (Pass p now) s = snd (passTurn s p now)"

text \<open>The states a game can be in: \<^verbatim>\<open>createGame\<close> makes the first, every call of an
  operation, successful or not, leads from one to the next.\<close>

inductive reachable :: "GameState \<Rightarrow> bool" where
  created: "reachable (createGame room host now1 now2)"
| called: "reachable s \<Longrightarrow> reachable (after_call c s)"

text \<open>What holds of a state before the start (\<open>pristine\<close>) and from the start on
  (\<open>dealt\<close>); \<open>game_inv\<close> is the invariant of the reachable states.\<close>

definition pristine :: "GameState \<Rightarrow> bool" where
  "pristine s \<longleftrightarrow>
     list_all (\<lambda>p. hand p = []) (players s) \<and> drawPile s = [] \<and> discardPile s = [] \<and>
     currentColor s = None \<and> currentValue s = None \<and> turn s = None \<and> winnerId s = None"

definition dealt :: "GameState \<Rightarrow> bool" where
  "dealt s \<longleftrightarrow>
     mset (all_cards s) = mset createDeck \<and> discardPile s \<noteq> [] \<and>
     currentColor s = Some (color (last (discardPile s))) \<and>
     currentValue s = Some (rank (last (discardPile s)))"

definition active_seated :: "GameState \<Rightarrow> bool" where
  "active_seated s \<longleftrightarrow>
     (case turn s of
        None \<Rightarrow> False
      | Some t \<Rightarrow> (case activePlayerId t of None \<Rightarrow> False | Some a \<Rightarrow> a \<in> set (playerOrder s)))"

definition game_inv :: "GameState \<Rightarrow> bool" where
  "game_inv s \<longleftrightarrow>
     playerOrder s = map player_id (players s) \<and> distinct (map player_id (players s)) \<and>
     (case phase s of
        WaitingForPlayer \<Rightarrow> length (players s) = 1 \<and> pristine s
      | ReadyToStart \<Rightarrow> length (players s) = 2 \<and> pristine s
      | InProgress \<Rightarrow> length (players s) = 2 \<and> dealt s \<and> active_seated s
      | Finished \<Rightarrow> length (players s) = 2 \<and> dealt s \<and> turn s = None)"

subsection \<open>Notions used in the proofs\<close>

definition hands_mset :: "PlayerState list \<Rightarrow> Card multiset" where
  "hands_mset ps = mset (concat (map hand ps))"

definition played :: "GameState \<Rightarrow> PlayerId \<Rightarrow> nat \<Rightarrow> nat \<Rightarrow> int \<Rightarrow> GameState" where
  "played s p i ci now =
     (let h = hand (players s ! i); c = h ! ci; h' = splice1 ci h;
          s3 = s\<lparr>players := (players s)[i := (players s ! i)\<lparr>hand := h'\<rparr>],
                 discardPile := discardPile s @ [c],
                 currentColor := Some (color c), currentValue := Some (rank c)\<rparr>
      in if h' = []
         then s3\<lparr>phase := Finished, winnerId := Some p, turn := None, updatedAt := now\<rparr>
         else s3\<lparr>turn := Some \<lparr>activePlayerId = getNextPlayerId s (Some p),
                                hasDrawnCard = False\<rparr>, updatedAt := now\<rparr>)"

definition piles_for_draw :: "GameState \<Rightarrow> RandomFn \<Rightarrow> Card list \<times> Card list" where
  "piles_for_draw s random =
     (if drawPile s = [] then (shuffle (butlast (discardPile s)) random, [last (discardPile s)])
      else (drawPile s, discardPile s))"

definition drawn :: "GameState \<Rightarrow> nat \<Rightarrow> RandomFn \<Rightarrow> int \<Rightarrow> GameState" where
  "drawn s i random now =
     (let pile = fst (piles_for_draw s random)
      in s\<lparr>drawPile := butlast pile, discardPile := snd (piles_for_draw s random),
            players := (players s)[i := (players s ! i)\<lparr>hand := hand (players s ! i) @ [last pile]\<rparr>],
            turn := map_option (\<lambda>t. t\<lparr>hasDrawnCard := True\<rparr>) (turn s),
            updatedAt := now\<rparr>)"

definition has_playable :: "GameState \<Rightarrow> PlayerId \<Rightarrow> bool" where
  "has_playable s p \<longleftrightarrow>
     (case listPlayableCards s p of Inl _ \<Rightarrow> False | Inr playable \<Rightarrow> length playable > 0)"

inductive in_play :: "GameState \<Rightarrow> bool" where
  started: "reachable s \<Longrightarrow> \<not> failed (startGame s random now) \<Longrightarrow>
            in_play (snd (startGame s random now))"
| moved: "in_play s \<Longrightarrow> in_play (after_call c s)"

definition top_matches :: "GameState \<Rightarrow> bool" where
  "top_matches s \<longleftrightarrow>
     discardPile s \<noteq> [] \<and> currentColor s = Some (color (last (discardPile s))) \<and>
     currentValue s = Some (rank (last (discardPile s)))"

definition has_started :: "GameState \<Rightarrow> bool" where
  "has_started s \<longleftrightarrow> phase s = InProgress \<or> phase s = Finished"

definition is_active :: "GameState \<Rightarrow> PlayerId \<Rightarrow> bool" where
  "is_active s p \<longleftrightarrow> (\<exists>t. turn s = Some t \<and> activePlayerId t = Some p)"

section \<open>States of the repository's tests (game.test.ts)\<close>

text \<open>\<^verbatim>\<open>createStartedState()\<close>: a hand-built game in progress, alice to move.\<close>

definition createStartedState :: GameState where
  "createStartedState =
     \<lparr>roomId = ''room-1'', phase = InProgress,
      players =
        [\<lparr>player_id = ''alice'',
          hand = [\<lparr>card_id = ''a-1'', color = Red, rank = 3\<rparr>,
                  \<lparr>card_id = ''a-2'', color = Green, rank = 1\<rparr>]\<rparr>,
         \<lparr>player_id = ''bob'',
          hand = [\<lparr>card_id = ''b-1'', color = Yellow, rank = 9\<rparr>]\<rparr>],
      playerOrder = [''alice'', ''bob''],
      drawPile = [\<lparr>card_id = ''deck-1'', color = Blue, rank = 5\<rparr>,
                  \<lparr>card_id = ''deck-2'', color = Red, rank = 7\<rparr>],
      discardPile = [\<lparr>card_id = ''d-aux-1'', color = Yellow, rank = 8\<rparr>,
                     \<lparr>card_id = ''d-aux-2'', color = Blue, rank = 2\<rparr>,
                     \<lparr>card_id = ''d-1'', color = Red, rank = 5\<rparr>],
      currentColor = Some Red, currentValue = Some 5, winnerId = None,
      turn = Some \<lparr>activePlayerId = Some ''alice'', hasDrawnCard = False\<rparr>,
      createdAt = 1000, updatedAt = 1000\<rparr>"

text \<open>The state of the test \<^verbatim>\<open>reshuffles discard pile when draw pile is empty\<close>: alice
  holds one card that cannot be played, the draw pile is empty, the discard pile has
  three cards.\<close>

definition reshuffleState :: GameState where
  "reshuffleState =
     createStartedState
       \<lparr>players :=
          [\<lparr>player_id = ''alice'',
            hand = [\<lparr>card_id = ''a-2'', color = Green, rank = 1\<rparr>]\<rparr>,
           \<lparr>player_id = ''bob'',
            hand = [\<lparr>card_id = ''b-1'', color = Yellow, rank = 9\<rparr>]\<rparr>],
        drawPile := [],
        discardPile := [\<lparr>card_id = ''rest-1'', color = Yellow, rank = 8\<rparr>,
                        \<lparr>card_id = ''rest-2'', color = Blue, rank = 2\<rparr>,
                        \<lparr>card_id = ''top'', color = Red, rank = 5\<rparr>]\<rparr>"

text \<open>The game of the test \<^verbatim>\<open>initializes state and handles join/start flow\<close>, before
  and after its start with the source \<^verbatim>\<open>() => 0\<close>.\<close>

definition readyGame :: GameState where
  "readyGame = snd (joinGame (createGame ''room-1'' ''alice'' 1000 1000) ''bob'' 1001)"

definition startedGame :: GameState where
  "startedGame = snd (startGame readyGame (\<lambda>k. unit_zero) 1002)"

text \<open>A store with one array, at address 0.\<close>

definition demoStore :: "nat store" where
  "demoStore = \<lparr>cells = (\<lambda>a. [])(0 := [1, 2, 3, 4, 5]), fresh = 1\<rparr>"

section \<open>A game played to its end\<close>

text \<open>The game of the join/start test, continued. With the source \<^verbatim>\<open>() => 0\<close> the shuffle
  is a rotation: alice holds card-0 (red 0) and six yellow cards, bob holds seven yellow
  cards and the first discard is yellow. Both play their yellow cards in turn
  (\<open>openingPlays\<close>, which lead to \<open>midGame\<close>); alice, left with the red 0, draws
  (\<open>drawnGame\<close>) and plays the drawn card, and bob plays his last card and wins
  (\<open>finishedGame\<close>).\<close>

definition openingPlays :: "Call list" where
  "openingPlays =
     [Play ''alice'' ''card-74'' 1003,
      Play ''bob'' ''card-75'' 1004,
      Play ''alice'' ''card-72'' 1005,
      Play ''bob'' ''card-73'' 1006,
      Play ''alice'' ''card-70'' 1007,
      Play ''bob'' ''card-71'' 1008,
      Play ''alice'' ''card-68'' 1009,
      Play ''bob'' ''card-69'' 1010,
      Play ''alice'' ''card-66'' 1011,
      Play ''bob'' ''card-67'' 1012,
      Play ''alice'' ''card-64'' 1013,
      Play ''bob'' ''card-65'' 1014]"

definition midGame :: GameState where
  "midGame = foldl (\<lambda>s c. after_call c s) startedGame openingPlays"

definition drawnGame :: GameState where
  "drawnGame = snd (drawCard midGame ''alice'' (\<lambda>k. unit_zero) 1015)"

definition finishedGame :: GameState where
  "finishedGame =
     snd (playCard (snd (playCard drawnGame ''alice'' ''card-61'' 1016)) ''bob'' ''card-63'' 1017)"

section \<open>Facts about the deck module\<close>

lemma floor_scaled_less: "0 < n \<Longrightarrow> floor_scaled r n < n"
proof (transfer)
  fix n :: nat and r :: real
  assume n: "0 < n" and r: "0 \<le> r \<and> r < 1"
  then have "r * real n < real n" by simp
  then have "\<lfloor>r * real n\<rfloor> < int n" by (simp add: floor_less_iff)
  moreover have "0 \<le> \<lfloor>r * real n\<rfloor>" using r by simp
  ultimately show "nat \<lfloor>r * real n\<rfloor> < n" by linarith
qed

lemma floor_scaled_zero [simp]: "floor_scaled unit_zero n = 0"
  by transfer simp

lemma floor_scaled_half: "floor_scaled unit_half n = n div 2"
proof (transfer)
  fix n :: nat
  have "\<lfloor>real n / 2\<rfloor> = int (n div 2)"
    by (metis floor_divide_of_nat_eq of_nat_numeral)
  then show "nat \<lfloor>1 / 2 * real n\<rfloor> = n div 2" by simp
qed

section \<open>Lists, hands and dealing\<close>

lemma findIndex_Some:
  "findIndex P xs = Some i \<Longrightarrow> i < length xs \<and> P (xs ! i) \<and> (\<forall>j<i. \<not> P (xs ! j))"
proof (induction xs arbitrary: i)
  case Nil
  then show ?case by simp
next
  case (Cons x xs)
  show ?case
  proof (cases "P x")
    case True
    with Cons.prems show ?thesis by simp
  next
    case False
    with Cons.prems obtain k where k: "findIndex P xs = Some k" "i = Suc k" by auto
    from Cons.IH [OF k(1)] False k(2) show ?thesis
      by (auto simp: nth_Cons split: nat.splits)
  qed
qed

lemma findIndex_None: "findIndex P xs = None \<longleftrightarrow> (\<forall>x\<in>set xs. \<not> P x)"
  by (induction xs) auto

lemma findIndex_distinct_map:
  "distinct (map f xs) \<Longrightarrow> i < length xs \<Longrightarrow> findIndex (\<lambda>x. f x = f (xs ! i)) xs = Some i"
proof (induction xs arbitrary: i)
  case Nil
  then show ?case by simp
next
  case (Cons x xs)
  show ?case
  proof (cases i)
    case 0
    then show ?thesis by simp
  next
    case (Suc k)
    with Cons.prems have "f x \<noteq> f (xs ! k)" by auto
    with Cons Suc show ?thesis by simp
  qed
qed

lemma mset_splice1: "i < length xs \<Longrightarrow> mset (splice1 i xs) + {#xs ! i#} = mset xs"
proof -
  assume "i < length xs"
  then have "xs = take i xs @ xs ! i # drop (Suc i) xs" by (rule id_take_nth_drop)
  then have "mset xs = mset (take i xs @ xs ! i # drop (Suc i) xs)" by simp
  then show ?thesis by (simp add: splice1_def)
qed

lemma hands_mset_update:
  "i < length ps \<Longrightarrow>
   hands_mset (ps[i := p']) + mset (hand (ps ! i)) = hands_mset ps + mset (hand p')"
proof (induction ps arbitrary: i)
  case Nil
  then show ?case by simp
next
  case (Cons p ps)
  show ?case
  proof (cases i)
    case 0
    then show ?thesis by (simp add: hands_mset_def)
  next
    case (Suc k)
    with Cons.prems have "k < length ps" by simp
    from Cons.IH [OF this] Suc show ?thesis by (simp add: hands_mset_def)
  qed
qed

lemma ids_update_hand:
  "map player_id (ps[i := (ps ! i)\<lparr>hand := h\<rparr>]) = map player_id ps"
proof (cases "i < length ps")
  case True
  then have "(map player_id ps)[i := map player_id ps ! i] = map player_id ps"
    by (simp only: list_update_id)
  with True show ?thesis by (simp add: map_update)
next
  case False
  then have "length ps \<le> i" by simp
  then show ?thesis by (simp only: list_update_beyond)
qed

lemma pushToHand_ids [simp]:
  "map player_id (players (pushToHand s idx c)) = map player_id (players s)"
  by (cases idx) (simp_all add: pushToHand_def ids_update_hand)

lemma pushToHand_length [simp]: "length (players (pushToHand s idx c)) = length (players s)"
  by (cases idx) (simp_all add: pushToHand_def)

lemma pushToHand_mset:
  "i < length (players s) \<Longrightarrow>
   hands_mset (players (pushToHand s (Some i) c)) = hands_mset (players s) + {#c#}"
  using hands_mset_update [of i "players s" "(players s ! i)\<lparr>hand := hand (players s ! i) @ [c]\<rparr>"]
  by (simp add: pushToHand_def)

lemma findPlayerIndex_Some:
  "findPlayerIndex s p = Some i \<Longrightarrow> i < length (players s) \<and> player_id (players s ! i) = p"
  using findIndex_Some [of "\<lambda>pl. player_id pl = p" "players s" i]
  by (simp add: findPlayerIndex_def)

lemma findPlayerIndex_seated:
  "p \<in> set (map player_id (players s)) \<Longrightarrow> \<exists>i. findPlayerIndex s p = Some i"
  using findIndex_None [of "\<lambda>pl. player_id pl = p" "players s"]
  by (cases "findPlayerIndex s p") (auto simp: findPlayerIndex_def)

lemma findIndex_map: "findIndex (\<lambda>x. f x = p) xs = findIndex (\<lambda>y. y = p) (map f xs)"
  by (induction xs) simp_all

lemma findPlayerIndex_cong:
  assumes "map player_id (players s') = map player_id (players s)"
  shows "findPlayerIndex s' p = findPlayerIndex s p"
  unfolding findPlayerIndex_def findIndex_map [of player_id] using assms by simp

lemma mset_butlast_last: "xs \<noteq> [] \<Longrightarrow> add_mset (last xs) (mset (butlast xs)) = mset xs"
proof -
  assume "xs \<noteq> []"
  then have "xs = butlast xs @ [last xs]" by simp
  then have "mset xs = mset (butlast xs @ [last xs])" by simp
  then show ?thesis by simp
qed

lemma deal_round_conserves:
  "set order \<subseteq> set (map player_id (players st)) \<Longrightarrow> length order \<le> length deck \<Longrightarrow>
   \<exists>deck' ps'. deal_round order (deck, st) = Inr (deck', st\<lparr>players := ps'\<rparr>) \<and>
     length deck' = length deck - length order \<and>
     map player_id ps' = map player_id (players st) \<and>
     hands_mset ps' + mset deck' = hands_mset (players st) + mset deck"
proof (induction order arbitrary: deck st)
  case Nil
  show ?case
    by (rule exI [of _ deck], rule exI [of _ "players st"]) simp
next
  case (Cons p order)
  from Cons.prems have ne: "deck \<noteq> []" by auto
  from Cons.prems obtain i where i: "findPlayerIndex st p = Some i"
    using findPlayerIndex_seated [of p st] by auto
  then have il: "i < length (players st)" by (simp add: findPlayerIndex_Some)
  let ?st1 = "pushToHand st (Some i) (last deck)"
  have "set order \<subseteq> set (map player_id (players ?st1))" using Cons.prems by simp
  moreover have "length order \<le> length (butlast deck)" using Cons.prems by simp
  ultimately obtain deck' ps' where r:
    "deal_round order (butlast deck, ?st1) = Inr (deck', ?st1\<lparr>players := ps'\<rparr>)"
    "length deck' = length (butlast deck) - length order"
    "map player_id ps' = map player_id (players ?st1)"
    "hands_mset ps' + mset deck' = hands_mset (players ?st1) + mset (butlast deck)"
    using Cons.IH [of ?st1 "butlast deck"] by blast
  have st1: "?st1\<lparr>players := ps'\<rparr> = st\<lparr>players := ps'\<rparr>"
    by (simp add: pushToHand_def)
  have "hands_mset ps' + mset deck' = hands_mset (players st) + (mset (butlast deck) + {#last deck#})"
    using r(4) il by (simp add: pushToHand_mset)
  then have m: "hands_mset ps' + mset deck' = hands_mset (players st) + mset deck"
    using ne by (simp add: mset_butlast_last)
  show ?case
    apply (rule exI [of _ deck'], rule exI [of _ ps'])
    using r(1,2,3) st1 ne i m
    by (simp add: drawTopCard_def)
qed

section \<open>The shuffle keeps the cards\<close>

lemma length_shuffle_loop [simp]: "length (shuffle_loop m random k xs) = length xs"
  by (induction m arbitrary: k xs) (simp_all add: Let_def)

lemma length_shuffle [simp]: "length (shuffle xs random) = length xs"
  by (simp add: shuffle_def)

lemma mset_shuffle_loop: "m < length xs \<Longrightarrow> mset (shuffle_loop m random k xs) = mset xs"
proof (induction m arbitrary: k xs)
  case 0
  then show ?case by simp
next
  case (Suc m)
  let ?j = "floor_scaled (random k) (Suc m + 1)"
  have j: "?j < Suc m + 1" by (rule floor_scaled_less) simp
  with Suc.prems have "?j < length xs" by simp
  with Suc.prems have "mset (xs[Suc m := xs ! ?j, ?j := xs ! Suc m]) = mset xs"
    by (simp add: mset_swap)
  moreover have "m < length (xs[Suc m := xs ! ?j, ?j := xs ! Suc m])"
    using Suc.prems by simp
  ultimately show ?case using Suc.IH by (simp add: Let_def)
qed

lemma mset_shuffle [simp]: "mset (shuffle xs random) = mset xs"
proof (cases xs)
  case Nil
  then show ?thesis by (simp add: shuffle_def)
next
  case (Cons a list)
  then show ?thesis by (simp add: shuffle_def mset_shuffle_loop)
qed

lemma length_createDeck: "length createDeck = 76"
  by (simp add: createDeck_def UNO_COLORS_def UNO_VALUES_def)

lemma deal_rounds_conserves:
  "set (playerOrder st) \<subseteq> set (map player_id (players st)) \<Longrightarrow>
   n * length (playerOrder st) \<le> length deck \<Longrightarrow>
   \<exists>deck' ps'. deal_rounds n (deck, st) = Inr (deck', st\<lparr>players := ps'\<rparr>) \<and>
     length deck' = length deck - n * length (playerOrder st) \<and>
     map player_id ps' = map player_id (players st) \<and>
     hands_mset ps' + mset deck' = hands_mset (players st) + mset deck"
proof (induction n arbitrary: deck st)
  case 0
  show ?case
    by (rule exI [of _ deck], rule exI [of _ "players st"]) simp
next
  case (Suc n)
  let ?order = "playerOrder st"
  from Suc.prems have le: "length ?order \<le> length deck" by simp
  from deal_round_conserves [OF Suc.prems(1) le] obtain d1 ps1 where r1:
    "deal_round ?order (deck, st) = Inr (d1, st\<lparr>players := ps1\<rparr>)"
    "length d1 = length deck - length ?order"
    "map player_id ps1 = map player_id (players st)"
    "hands_mset ps1 + mset d1 = hands_mset (players st) + mset deck"
    by blast
  let ?st1 = "st\<lparr>players := ps1\<rparr>"
  have a: "set (playerOrder ?st1) \<subseteq> set (map player_id (players ?st1))"
    using Suc.prems(1) r1(3) by simp
  have b: "n * length (playerOrder ?st1) \<le> length d1"
    using Suc.prems(2) r1(2) by simp
  from Suc.IH [OF a b] obtain d2 ps2 where r2:
    "deal_rounds n (d1, ?st1) = Inr (d2, ?st1\<lparr>players := ps2\<rparr>)"
    "length d2 = length d1 - n * length (playerOrder ?st1)"
    "map player_id ps2 = map player_id (players ?st1)"
    "hands_mset ps2 + mset d2 = hands_mset (players ?st1) + mset d1"
    by blast
  show ?case
    apply (rule exI [of _ d2], rule exI [of _ ps2])
    using r1 r2 by simp
qed

lemma pristine_hands: "pristine s \<Longrightarrow> hands_mset (players s) = {#}"
  by (auto simp: pristine_def hands_mset_def list_all_iff)

lemma startGame_ready:
  assumes inv: "game_inv s" and ph: "phase s = ReadyToStart"
  shows "\<exists>deck' ps'.
    startGame s random now =
      (Inr (), s\<lparr>players := ps', drawPile := butlast deck', discardPile := [last deck'],
                 currentColor := Some (color (last deck')),
                 currentValue := Some (rank (last deck')),
                 phase := InProgress, winnerId := None,
                 turn := Some \<lparr>activePlayerId = firstOfOrder (playerOrder s),
                               hasDrawnCard = False\<rparr>, updatedAt := now\<rparr>) \<and>
    length deck' = 62 \<and> map player_id ps' = map player_id (players s) \<and>
    hands_mset ps' + mset deck' = mset createDeck"
proof -
  from inv ph have two: "length (players s) = 2" and pr: "pristine s"
    and ord: "playerOrder s = map player_id (players s)"
    by (simp_all add: game_inv_def)
  let ?D = "shuffle createDeck random"
  have a: "set (playerOrder s) \<subseteq> set (map player_id (players s))" using ord by simp
  have lo: "length (playerOrder s) = 2" using ord two by simp
  have b: "7 * length (playerOrder s) \<le> length ?D" using lo by (simp add: length_createDeck)
  from deal_rounds_conserves [OF a b] obtain deck' ps' where r:
    "deal_rounds 7 (?D, s) = Inr (deck', s\<lparr>players := ps'\<rparr>)"
    "length deck' = length ?D - 7 * length (playerOrder s)"
    "map player_id ps' = map player_id (players s)"
    "hands_mset ps' + mset deck' = hands_mset (players s) + mset ?D"
    by blast
  have len: "length deck' = 62" using r(2) lo by (simp add: length_createDeck)
  then have ne: "deck' \<noteq> []" by auto
  show ?thesis
    apply (rule exI [of _ deck'], rule exI [of _ ps'])
    using r(1,3,4) len ne two ph pr
    by (simp add: startGame_def CARDS_PER_PLAYER_def drawTopCard_def refreshTimestamp_def
        pristine_hands)
qed

lemma shuffle_loop_at_cells:
  "cells (shuffle_loop_at m random k c st) = (cells st)(c := shuffle_loop m random k (cells st c))"
  by (induction m arbitrary: k st) (simp_all add: Let_def)

lemma shuffle_loop_at_fresh: "fresh (shuffle_loop_at m random k c st) = fresh st"
  by (induction m arbitrary: k st) (simp_all add: Let_def)

lemma shuffle_at_cells:
  "cells (snd (shuffle_at st a random)) = (cells st)(fresh st := shuffle (cells st a) random)"
  by (simp add: shuffle_at_def Let_def shuffle_loop_at_cells shuffle_def)

lemma shuffle_loop_cong:
  "(\<And>n. n < m \<Longrightarrow> r1 (k + n) = r2 (k + n)) \<Longrightarrow> shuffle_loop m r1 k xs = shuffle_loop m r2 k xs"
proof (induction m arbitrary: k xs)
  case 0
  then show ?case by simp
next
  case (Suc m)
  have "r1 k = r2 k" using Suc.prems [of 0] by simp
  moreover have "shuffle_loop m r1 (Suc k) ys = shuffle_loop m r2 (Suc k) ys" for ys :: "'a list"
  proof (rule Suc.IH)
    fix n assume "n < m"
    then show "r1 (Suc k + n) = r2 (Suc k + n)" using Suc.prems [of "Suc n"] by simp
  qed
  ultimately show ?case by (simp add: Let_def)
qed

section \<open>The invariant of the reachable states\<close>

lemma all_cards_mset:
  "mset (all_cards s) = hands_mset (players s) + mset (drawPile s) + mset (discardPile s)"
  by (simp add: all_cards_def hands_mset_def)

lemma inv_create: "game_inv (createGame room host now1 now2)"
  by (simp add: game_inv_def createGame_def pristine_def)

lemma join_fail: "failed (joinGame s p now) \<Longrightarrow> snd (joinGame s p now) = s"
  by (simp add: joinGame_def Let_def split: if_splits)

lemma play_fail: "failed (playCard s p cid now) \<Longrightarrow> snd (playCard s p cid now) = s"
  by (auto simp: playCard_def Let_def split: if_splits sum.splits option.splits)

lemma pass_fail: "failed (passTurn s p now) \<Longrightarrow> snd (passTurn s p now) = s"
  by (auto simp: passTurn_def Let_def split: if_splits sum.splits option.splits)

lemma start_fail:
  assumes "game_inv s" and "failed (startGame s random now)"
  shows "snd (startGame s random now) = s"
proof (cases "phase s")
  case WaitingForPlayer
  with assms(1) show ?thesis by (simp add: game_inv_def startGame_def)
next
  case ReadyToStart
  from startGame_ready [OF assms(1) this, of random now] assms(2) show ?thesis by auto
next
  case InProgress
  then show ?thesis by (simp add: startGame_def)
next
  case Finished
  then show ?thesis by (simp add: startGame_def)
qed

lemma inv_join: "game_inv s \<Longrightarrow> game_inv (snd (joinGame s p now))"
proof (cases "failed (joinGame s p now)")
  case True
  assume "game_inv s"
  with join_fail [OF True] show ?thesis by simp
next
  case False
  assume inv: "game_inv s"
  from False have c: "phase s = WaitingForPlayer \<or> phase s = ReadyToStart"
    "findPlayerIndex s p = None" "length (players s) < 2"
    by (auto simp: joinGame_def split: if_splits)
  from c(3) inv have ph: "phase s = WaitingForPlayer" and one: "length (players s) = 1"
    by (cases "phase s"; simp add: game_inv_def)+
  from c(2) have "p \<notin> set (map player_id (players s))"
    by (auto simp: findPlayerIndex_def findIndex_None)
  with inv ph one c show ?thesis
    by (simp add: joinGame_def Let_def refreshTimestamp_def game_inv_def pristine_def)
qed

lemma inv_start: "game_inv s \<Longrightarrow> game_inv (snd (startGame s random now))"
proof (cases "failed (startGame s random now)")
  case True
  assume "game_inv s"
  with start_fail [OF this True] show ?thesis by simp
next
  case False
  assume inv: "game_inv s"
  from False have "phase s = WaitingForPlayer \<or> phase s = ReadyToStart" "length (players s) \<ge> 2"
    by (cases "phase s"; simp add: startGame_def split: if_splits)+
  with inv have ph: "phase s = ReadyToStart" by (auto simp: game_inv_def)
  from inv ph have two: "length (players s) = 2"
    and ord: "playerOrder s = map player_id (players s)" and dist: "distinct (map player_id (players s))"
    by (simp_all add: game_inv_def)
  from startGame_ready [OF inv ph, of random now] obtain deck' ps' where r:
    "startGame s random now =
      (Inr (), s\<lparr>players := ps', drawPile := butlast deck', discardPile := [last deck'],
                 currentColor := Some (color (last deck')),
                 currentValue := Some (rank (last deck')),
                 phase := InProgress, winnerId := None,
                 turn := Some \<lparr>activePlayerId = firstOfOrder (playerOrder s),
                               hasDrawnCard = False\<rparr>, updatedAt := now\<rparr>)"
    "length deck' = 62" "map player_id ps' = map player_id (players s)"
    "hands_mset ps' + mset deck' = mset createDeck"
    by blast
  from r(2) have ne: "deck' \<noteq> []" by auto
  have l2: "length ps' = 2" using r(3) two by (metis length_map)
  obtain a rest where o: "map player_id (players s) = a # rest"
    using two by (cases "map player_id (players s)") auto
  have "hands_mset ps' + mset (butlast deck') + {#last deck'#} =
      hands_mset ps' + add_mset (last deck') (mset (butlast deck'))" by simp
  also have "\<dots> = hands_mset ps' + mset deck'" by (simp only: mset_butlast_last [OF ne])
  finally have m: "hands_mset ps' + mset (butlast deck') + {#last deck'#} = mset createDeck"
    using r(4) by simp
  show ?thesis
    using r(1,3) ord dist l2 o m
    by (simp add: game_inv_def dealt_def all_cards_mset active_seated_def firstOfOrder_def)
qed

lemma getNext_in_order:
  "a \<in> set (playerOrder s) \<Longrightarrow> \<exists>b. getNextPlayerId s (Some a) = Some b \<and> b \<in> set (playerOrder s)"
proof -
  assume a: "a \<in> set (playerOrder s)"
  then obtain idx where i: "findIndex (\<lambda>p. p = a) (playerOrder s) = Some idx"
    using findIndex_None [of "\<lambda>p. p = a" "playerOrder s"]
    by (cases "findIndex (\<lambda>p. p = a) (playerOrder s)") auto
  from a have "length (playerOrder s) > 0" by auto
  then have "(idx + 1) mod length (playerOrder s) < length (playerOrder s)" by simp
  then have "playerOrder s ! ((idx + 1) mod length (playerOrder s)) \<in> set (playerOrder s)"
    by (rule nth_mem)
  with i show ?thesis by (simp add: getNextPlayerId_def Let_def)
qed

lemma advanceTurn_inv:
  assumes "active_seated s"
  shows "active_seated (advanceTurn s)" and "advanceTurn s = s\<lparr>turn := turn (advanceTurn s)\<rparr>"
proof -
  from assms obtain t a where t: "turn s = Some t" "activePlayerId t = Some a" "a \<in> set (playerOrder s)"
    by (auto simp: active_seated_def split: option.splits)
  from getNext_in_order [OF t(3)] obtain b where
    "getNextPlayerId s (Some a) = Some b" "b \<in> set (playerOrder s)" by blast
  with t show "active_seated (advanceTurn s)" by (simp add: advanceTurn_def active_seated_def)
  from t show "advanceTurn s = s\<lparr>turn := turn (advanceTurn s)\<rparr>" by (simp add: advanceTurn_def)
qed

lemma active_seated_cong:
  "turn s' = turn s \<Longrightarrow> playerOrder s' = playerOrder s \<Longrightarrow> active_seated s' = active_seated s"
  by (simp add: active_seated_def split: option.splits)

lemma inv_pass: "game_inv s \<Longrightarrow> game_inv (snd (passTurn s p now))"
proof (cases "failed (passTurn s p now)")
  case True
  assume "game_inv s"
  with pass_fail [OF True] show ?thesis by simp
next
  case False
  assume inv: "game_inv s"
  from False have ph: "phase s = InProgress"
    and r: "passTurn s p now = (Inr (), refreshTimestamp (advanceTurn s) now)"
    by (auto simp: passTurn_def split: if_splits sum.splits)
  from inv ph have act: "active_seated s" by (simp add: game_inv_def)
  from advanceTurn_inv [OF act] inv ph r show ?thesis
    by (auto simp: game_inv_def refreshTimestamp_def dealt_def all_cards_def active_seated_def
        advanceTurn_def split: option.splits)
qed

lemma ensureActive_ok:
  "ensureActivePlayer s p = Inr u \<longleftrightarrow> (\<exists>t. turn s = Some t \<and> activePlayerId t = Some p)"
  by (auto simp: ensureActivePlayer_def split: option.splits)

lemma ensureActive_err:
  "ensureActivePlayer s p = Inl e \<longleftrightarrow>
     e = NOT_PLAYER_TURN \<and> \<not> (\<exists>t. turn s = Some t \<and> activePlayerId t = Some p)"
  by (auto simp: ensureActivePlayer_def split: option.splits)

lemma playCard_ok:
  assumes "phase s = InProgress" and "turn s = Some t" and "activePlayerId t = Some p"
    and "findPlayerIndex s p = Some i"
    and "findIndex (\<lambda>c. card_id c = cid) (hand (players s ! i)) = Some ci"
    and "isCardPlayable (hand (players s ! i) ! ci) (currentColor s) (currentValue s)"
  shows "playCard s p cid now = (Inr (), played s p i ci now)"
  using assms
  by (simp add: playCard_def Let_def ensureActivePlayer_def refreshTimestamp_def advanceTurn_def
      getNextPlayerId_def played_def)

lemma play_success:
  assumes nf: "\<not> failed (playCard s p cid now)"
  shows "\<exists>t i ci. phase s = InProgress \<and> turn s = Some t \<and> activePlayerId t = Some p \<and>
     findPlayerIndex s p = Some i \<and>
     findIndex (\<lambda>c. card_id c = cid) (hand (players s ! i)) = Some ci \<and>
     isCardPlayable (hand (players s ! i) ! ci) (currentColor s) (currentValue s) \<and>
     playCard s p cid now = (Inr (), played s p i ci now)"
proof -
  have ph: "phase s = InProgress"
    using nf by (rule contrapos_np) (simp add: playCard_def)
  have "\<exists>u. ensureActivePlayer s p = Inr u"
    using nf ph by (cases "ensureActivePlayer s p") (simp_all add: playCard_def)
  then obtain t where t: "turn s = Some t" "activePlayerId t = Some p"
    by (auto simp: ensureActive_ok)
  then have ea: "ensureActivePlayer s p = Inr ()" by (simp add: ensureActive_ok)
  obtain i where i: "findPlayerIndex s p = Some i"
    using nf ph ea by (cases "findPlayerIndex s p") (simp_all add: playCard_def)
  obtain ci where ci: "findIndex (\<lambda>c. card_id c = cid) (hand (players s ! i)) = Some ci"
    using nf ph ea i
    by (cases "findIndex (\<lambda>c. card_id c = cid) (hand (players s ! i))")
      (simp_all add: playCard_def Let_def)
  have pl: "isCardPlayable (hand (players s ! i) ! ci) (currentColor s) (currentValue s)"
    using nf ph ea i ci by (rule_tac ccontr) (simp add: playCard_def Let_def)
  from playCard_ok [OF ph t i ci pl] ph t i ci pl show ?thesis by blast
qed

lemma hands_mset_play:
  assumes "i < length ps" and "ci < length (hand (ps ! i))"
  shows "hands_mset (ps[i := (ps ! i)\<lparr>hand := splice1 ci (hand (ps ! i))\<rparr>]) + {#hand (ps ! i) ! ci#}
         = hands_mset ps"
proof -
  let ?p' = "(ps ! i)\<lparr>hand := splice1 ci (hand (ps ! i))\<rparr>"
  have "hands_mset (ps[i := ?p']) + mset (hand (ps ! i)) = hands_mset ps + mset (hand ?p')"
    using assms(1) by (rule hands_mset_update)
  moreover have "mset (hand ?p') + {#hand (ps ! i) ! ci#} = mset (hand (ps ! i))"
    using mset_splice1 [OF assms(2)] by simp
  ultimately have "hands_mset (ps[i := ?p']) + (mset (hand ?p') + {#hand (ps ! i) ! ci#})
      = hands_mset ps + mset (hand ?p')"
    by simp
  then show ?thesis by simp
qed

lemma inv_play: "game_inv s \<Longrightarrow> game_inv (snd (playCard s p cid now))"
proof (cases "failed (playCard s p cid now)")
  case True
  assume "game_inv s"
  with play_fail [OF True] show ?thesis by simp
next
  case False
  assume inv: "game_inv s"
  from play_success [OF False] obtain t i ci where f:
    "phase s = InProgress" "turn s = Some t" "activePlayerId t = Some p"
    "findPlayerIndex s p = Some i"
    "findIndex (\<lambda>c. card_id c = cid) (hand (players s ! i)) = Some ci"
    "playCard s p cid now = (Inr (), played s p i ci now)"
    by blast
  from inv f(1) have two: "length (players s) = 2" and d: "dealt s" and act: "active_seated s"
    and ord: "playerOrder s = map player_id (players s)"
    and dist: "distinct (map player_id (players s))"
    by (simp_all add: game_inv_def)
  from f(4) have il: "i < length (players s)" by (simp add: findPlayerIndex_Some)
  from f(5) have cl: "ci < length (hand (players s ! i))" by (simp add: findIndex_Some)
  let ?c = "hand (players s ! i) ! ci"
  let ?ps = "(players s)[i := (players s ! i)\<lparr>hand := splice1 ci (hand (players s ! i))\<rparr>]"
  have ids: "map player_id ?ps = map player_id (players s)" by (rule ids_update_hand)
  have hm: "hands_mset ?ps + {#?c#} = hands_mset (players s)"
    using il cl by (rule hands_mset_play)
  from d have all: "hands_mset (players s) + mset (drawPile s) + mset (discardPile s) = mset createDeck"
    by (simp add: dealt_def all_cards_mset)
  have all': "hands_mset ?ps + mset (drawPile s) + mset (discardPile s @ [?c]) = mset createDeck"
    using all hm [symmetric] by simp
  from act f(2,3) ord have pin: "p \<in> set (playerOrder s)"
    by (simp add: active_seated_def)
  from getNext_in_order [OF pin] obtain b where
    b: "getNextPlayerId s (Some p) = Some b" "b \<in> set (playerOrder s)" by blast
  show ?thesis
  proof (cases "splice1 ci (hand (players s ! i)) = []")
    case True
    with f(6) two ord dist ids all' show ?thesis
      by (simp add: played_def Let_def game_inv_def dealt_def all_cards_mset)
  next
    case False
    with f(1,6) two ord dist ids all' b show ?thesis
      by (simp add: played_def Let_def game_inv_def dealt_def all_cards_mset active_seated_def)
  qed
qed

subsection \<open>drawCard, case by case\<close>

lemma replenish_ok:
  "length (discardPile s) \<ge> 2 \<Longrightarrow>
   replenishDrawPile s random =
     (Inr (), s\<lparr>drawPile := shuffle (butlast (discardPile s)) random,
                discardPile := [last (discardPile s)]\<rparr>)"
proof -
  assume l: "length (discardPile s) \<ge> 2"
  then have ne: "discardPile s \<noteq> []" by auto
  have "take (length (discardPile s) - 1) (discardPile s) = butlast (discardPile s)"
    by (simp add: butlast_conv_take)
  moreover have "discardPile s ! (length (discardPile s) - 1) = last (discardPile s)"
    using ne by (simp add: last_conv_nth)
  ultimately show ?thesis using l by (simp add: replenishDrawPile_def Let_def)
qed

lemma replenish_err:
  "length (discardPile s) \<le> 1 \<Longrightarrow> replenishDrawPile s random = (Inl NO_CARDS_TO_DRAW, s)"
  by (simp add: replenishDrawPile_def)

lemma drawCard_pre:
  assumes "phase s = InProgress" and "turn s = Some t" and "activePlayerId t = Some p"
    and "\<not> hasDrawnCard t" and "\<not> has_playable s p"
  shows "drawCard s p random now =
     (case (if length (drawPile s) = 0 then replenishDrawPile s random else (Inr (), s)) of
        (Inl e, s1) \<Rightarrow> (Inl e, s1)
      | (Inr _, s1) \<Rightarrow>
          (case drawTopCard (drawPile s1) of
             (None, _) \<Rightarrow> (Inl DRAW_PILE_EMPTY, s1)
           | (Some crd, pile') \<Rightarrow>
               (let s2 = s1\<lparr>drawPile := pile'\<rparr>
                in case findPlayerIndex s2 p of
                     None \<Rightarrow> (Inl PLAYER_ALREADY_JOINED, s2)
                   | Some playerIndex \<Rightarrow>
                       (let s3 = pushToHand s2 (Some playerIndex) crd;
                            s4 = s3\<lparr>turn := Some (t\<lparr>hasDrawnCard := True\<rparr>)\<rparr>;
                            playableAfterDraw =
                              isCardPlayable crd (currentColor s4) (currentValue s4)
                        in (Inr (crd, playableAfterDraw), refreshTimestamp s4 now)))))"
  using assms by (simp add: drawCard_def ensureActivePlayer_def has_playable_def)

lemma drawCard_ok:
  assumes "phase s = InProgress" and "turn s = Some t" and "activePlayerId t = Some p"
    and "\<not> hasDrawnCard t" and "\<not> has_playable s p"
    and "drawPile s \<noteq> [] \<or> length (discardPile s) \<ge> 2"
    and "findPlayerIndex s p = Some i"
  shows "drawCard s p random now =
     (Inr (last (fst (piles_for_draw s random)),
           isCardPlayable (last (fst (piles_for_draw s random))) (currentColor s) (currentValue s)),
      drawn s i random now)"
proof (cases "drawPile s = []")
  case True
  with assms(6) have l: "length (discardPile s) \<ge> 2" by simp
  then have "butlast (discardPile s) \<noteq> []"
    by (cases "discardPile s" rule: rev_cases) auto
  then have ne: "shuffle (butlast (discardPile s)) random \<noteq> []"
    by (metis length_shuffle length_0_conv)
  have fp: "findIndex (\<lambda>pl. player_id pl = p) (players s) = Some i"
    using assms(7) by (simp add: findPlayerIndex_def)
  show ?thesis
    unfolding drawCard_pre [OF assms(1-5)]
    using True ne assms(2) fp
    by (simp add: replenish_ok [OF l] drawTopCard_def Let_def pushToHand_def refreshTimestamp_def
        drawn_def piles_for_draw_def findPlayerIndex_def)
next
  case False
  have fp: "findIndex (\<lambda>pl. player_id pl = p) (players s) = Some i"
    using assms(7) by (simp add: findPlayerIndex_def)
  show ?thesis
    unfolding drawCard_pre [OF assms(1-5)]
    using False assms(2) fp
    by (simp add: drawTopCard_def Let_def pushToHand_def refreshTimestamp_def
        drawn_def piles_for_draw_def findPlayerIndex_def)
qed

lemma drawCard_no_cards:
  assumes "phase s = InProgress" and "turn s = Some t" and "activePlayerId t = Some p"
    and "\<not> hasDrawnCard t" and "\<not> has_playable s p"
    and "drawPile s = []" and "length (discardPile s) \<le> 1"
  shows "drawCard s p random now = (Inl NO_CARDS_TO_DRAW, s)"
  unfolding drawCard_pre [OF assms(1-5)]
  using assms(6,7) by (simp add: replenish_err)

lemma drawCard_errs:
  "phase s \<noteq> InProgress \<Longrightarrow> drawCard s p random now = (Inl GAME_NOT_READY, s)"
  "phase s = InProgress \<Longrightarrow> \<not> (\<exists>t. turn s = Some t \<and> activePlayerId t = Some p) \<Longrightarrow>
     drawCard s p random now = (Inl NOT_PLAYER_TURN, s)"
  "phase s = InProgress \<Longrightarrow> turn s = Some t \<Longrightarrow> activePlayerId t = Some p \<Longrightarrow> hasDrawnCard t \<Longrightarrow>
     drawCard s p random now = (Inl ALREADY_DREW_CARD, s)"
  "phase s = InProgress \<Longrightarrow> turn s = Some t \<Longrightarrow> activePlayerId t = Some p \<Longrightarrow> \<not> hasDrawnCard t \<Longrightarrow>
     has_playable s p \<Longrightarrow> drawCard s p random now = (Inl MUST_DRAW_FIRST, s)"
  by (auto simp: drawCard_def ensureActivePlayer_def has_playable_def split: option.splits)

lemma draw_fail:
  assumes inv: "game_inv s" and f: "failed (drawCard s p random now)"
  shows "snd (drawCard s p random now) = s"
proof (cases "phase s = InProgress")
  case False
  then show ?thesis by (simp add: drawCard_errs(1))
next
  case ph: True
  show ?thesis
  proof (cases "\<exists>t. turn s = Some t \<and> activePlayerId t = Some p")
    case False
    with ph show ?thesis by (simp add: drawCard_errs(2))
  next
    case True
    then obtain t where t: "turn s = Some t" "activePlayerId t = Some p" by blast
    show ?thesis
    proof (cases "hasDrawnCard t")
      case True
      with ph t show ?thesis by (simp add: drawCard_errs(3))
    next
      case nd: False
      show ?thesis
      proof (cases "has_playable s p")
        case True
        with ph t nd show ?thesis by (simp add: drawCard_errs(4))
      next
        case np: False
        from inv ph t have "p \<in> set (map player_id (players s))"
          by (auto simp: game_inv_def active_seated_def)
        then obtain i where i: "findPlayerIndex s p = Some i"
          using findPlayerIndex_seated by blast
        show ?thesis
        proof (cases "drawPile s \<noteq> [] \<or> length (discardPile s) \<ge> 2")
          case True
          from drawCard_ok [OF ph t nd np True i] f show ?thesis by simp
        next
          case False
          then have "drawPile s = []" "length (discardPile s) \<le> 1" by auto
          from drawCard_no_cards [OF ph t nd np this] show ?thesis by simp
        qed
      qed
    qed
  qed
qed

lemma drawCard_unseated:
  assumes "phase s = InProgress" and "turn s = Some t" and "activePlayerId t = Some p"
    and "\<not> hasDrawnCard t" and "\<not> has_playable s p"
    and "findPlayerIndex s p = None"
  shows "failed (drawCard s p random now)"
proof -
  have fp: "findIndex (\<lambda>pl. player_id pl = p) (players s) = None"
    using assms(6) by (simp add: findPlayerIndex_def)
  show ?thesis
    unfolding drawCard_pre [OF assms(1-5)]
    using fp
    by (simp add: replenishDrawPile_def drawTopCard_def Let_def findPlayerIndex_def)
qed

lemma draw_success:
  assumes nf: "\<not> failed (drawCard s p random now)"
  shows "\<exists>t i. phase s = InProgress \<and> turn s = Some t \<and> activePlayerId t = Some p \<and>
     \<not> hasDrawnCard t \<and> \<not> has_playable s p \<and>
     (drawPile s \<noteq> [] \<or> length (discardPile s) \<ge> 2) \<and> findPlayerIndex s p = Some i \<and>
     drawCard s p random now =
       (Inr (last (fst (piles_for_draw s random)),
             isCardPlayable (last (fst (piles_for_draw s random))) (currentColor s) (currentValue s)),
        drawn s i random now)"
proof -
  have ph: "phase s = InProgress"
    using nf by (rule contrapos_np) (simp add: drawCard_errs(1))
  have "\<exists>t. turn s = Some t \<and> activePlayerId t = Some p"
    using nf ph by (rule_tac ccontr) (simp add: drawCard_errs(2))
  then obtain t where t: "turn s = Some t" "activePlayerId t = Some p" by blast
  have nd: "\<not> hasDrawnCard t"
    using nf ph t by (rule_tac notI) (simp add: drawCard_errs(3))
  have np: "\<not> has_playable s p"
    using nf ph t nd by (rule_tac notI) (simp add: drawCard_errs(4))
  have av: "drawPile s \<noteq> [] \<or> length (discardPile s) \<ge> 2"
  proof (rule ccontr)
    assume "\<not> ?thesis"
    then have "drawPile s = []" "length (discardPile s) \<le> 1" by auto
    from drawCard_no_cards [OF ph t nd np this] nf show False by simp
  qed
  obtain i where i: "findPlayerIndex s p = Some i"
    using drawCard_unseated [OF ph t nd np] nf by (cases "findPlayerIndex s p") auto
  from drawCard_ok [OF ph t nd np av i] ph t nd np av i show ?thesis by blast
qed

lemma piles_for_draw_facts:
  assumes "drawPile s \<noteq> [] \<or> length (discardPile s) \<ge> 2"
  shows "fst (piles_for_draw s random) \<noteq> []"
    and "mset (fst (piles_for_draw s random)) + mset (snd (piles_for_draw s random)) =
         mset (drawPile s) + mset (discardPile s)"
    and "discardPile s \<noteq> [] \<Longrightarrow> snd (piles_for_draw s random) \<noteq> []"
    and "last (snd (piles_for_draw s random)) = last (discardPile s)"
proof -
  show "fst (piles_for_draw s random) \<noteq> []"
  proof (cases "drawPile s = []")
    case True
    with assms have "length (discardPile s) \<ge> 2" by simp
    then have "butlast (discardPile s) \<noteq> []"
      by (cases "discardPile s" rule: rev_cases) auto
    then have "shuffle (butlast (discardPile s)) random \<noteq> []"
      by (metis length_shuffle length_0_conv)
    with True show ?thesis by (simp add: piles_for_draw_def)
  next
    case False
    then show ?thesis by (simp add: piles_for_draw_def)
  qed
  show "mset (fst (piles_for_draw s random)) + mset (snd (piles_for_draw s random)) =
         mset (drawPile s) + mset (discardPile s)"
  proof (cases "drawPile s = []")
    case True
    with assms have "discardPile s \<noteq> []" by auto
    from mset_butlast_last [OF this] True show ?thesis by (simp add: piles_for_draw_def)
  next
    case False
    then show ?thesis by (simp add: piles_for_draw_def)
  qed
  show "discardPile s \<noteq> [] \<Longrightarrow> snd (piles_for_draw s random) \<noteq> []"
    by (simp add: piles_for_draw_def)
  show "last (snd (piles_for_draw s random)) = last (discardPile s)"
    by (simp add: piles_for_draw_def)
qed

lemma inv_draw: "game_inv s \<Longrightarrow> game_inv (snd (drawCard s p random now))"
proof (cases "failed (drawCard s p random now)")
  case True
  assume "game_inv s"
  with draw_fail [OF this True] show ?thesis by simp
next
  case False
  assume inv: "game_inv s"
  from draw_success [OF False] obtain t i c b where f:
    "phase s = InProgress" "turn s = Some t" "activePlayerId t = Some p"
    "drawPile s \<noteq> [] \<or> length (discardPile s) \<ge> 2" "findPlayerIndex s p = Some i"
    "drawCard s p random now = (Inr (c, b), drawn s i random now)"
    by blast
  from inv f(1) have two: "length (players s) = 2" and d: "dealt s" and act: "active_seated s"
    and ord: "playerOrder s = map player_id (players s)"
    and dist: "distinct (map player_id (players s))"
    by (simp_all add: game_inv_def)
  from f(5) have il: "i < length (players s)" by (simp add: findPlayerIndex_Some)
  let ?pile = "fst (piles_for_draw s random)"
  let ?disc = "snd (piles_for_draw s random)"
  let ?ps = "(players s)[i := (players s ! i)\<lparr>hand := hand (players s ! i) @ [last ?pile]\<rparr>]"
  note pf = piles_for_draw_facts [OF f(4), of random]
  have ids: "map player_id ?ps = map player_id (players s)" by (rule ids_update_hand)
  have hm: "hands_mset ?ps = hands_mset (players s) + {#last ?pile#}"
    using pushToHand_mset [OF il, of "last ?pile"] by (simp add: pushToHand_def)
  from d have all: "hands_mset (players s) + mset (drawPile s) + mset (discardPile s) = mset createDeck"
    and dne: "discardPile s \<noteq> []"
    and cc: "currentColor s = Some (color (last (discardPile s)))"
    and cv: "currentValue s = Some (rank (last (discardPile s)))"
    by (simp_all add: dealt_def all_cards_mset)
  have "hands_mset ?ps + mset (butlast ?pile) + mset ?disc =
        hands_mset (players s) + (add_mset (last ?pile) (mset (butlast ?pile))) + mset ?disc"
    by (simp add: hm)
  also have "\<dots> = hands_mset (players s) + (mset ?pile + mset ?disc)"
    by (simp only: mset_butlast_last [OF pf(1)] add.assoc)
  also have "\<dots> = mset createDeck" using all by (simp only: pf(2) add.assoc)
  finally have all': "hands_mset ?ps + mset (butlast ?pile) + mset ?disc = mset createDeck" .
  from act f(2,3) have pin: "p \<in> set (playerOrder s)"
    by (simp add: active_seated_def)
  show ?thesis
    using f(1,2,3,6) two ord dist ids all' pf(3) [OF dne] pf(4) cc cv pin
    by (simp add: drawn_def Let_def game_inv_def dealt_def all_cards_mset active_seated_def)
qed

lemma inv_call: "game_inv s \<Longrightarrow> game_inv (after_call c s)"
  by (cases c) (simp_all add: inv_join inv_start inv_play inv_draw inv_pass)

lemma reachable_inv: "reachable s \<Longrightarrow> game_inv s"
  by (induction rule: reachable.induct) (simp_all add: inv_create inv_call)

section \<open>The deck that createDeck builds\<close>

lemma deck_ids: "map card_id createDeck = map (\<lambda>n. ''card-'' @ decimal n) [0..<76]"
  by (simp add: createDeck_def UNO_COLORS_def UNO_VALUES_def make_card_def upt_conv_Cons)

lemma deck_distinct: "distinct (map card_id createDeck)"
  by (simp add: createDeck_def UNO_COLORS_def UNO_VALUES_def make_card_def)

lemma small_rank:
  "v < (10::nat) \<Longrightarrow>
   v = 0 \<or> v = 1 \<or> v = 2 \<or> v = 3 \<or> v = 4 \<or> v = 5 \<or> v = 6 \<or> v = 7 \<or> v = 8 \<or> v = 9"
  by presburger

lemma deck_kinds_small:
  "v = 0 \<or> v = 1 \<or> v = 2 \<or> v = 3 \<or> v = 4 \<or> v = 5 \<or> v = 6 \<or> v = 7 \<or> v = 8 \<or> v = 9 \<Longrightarrow>
   count_kind createDeck c v = (if v = 0 then 1 else 2)"
  by (cases c)
    (auto simp: count_kind_def createDeck_def UNO_COLORS_def UNO_VALUES_def make_card_def)

lemma deck_kinds_large: "9 < v \<Longrightarrow> count_kind createDeck c v = 0"
  by (simp add: count_kind_def createDeck_def UNO_COLORS_def UNO_VALUES_def make_card_def)

lemma deck_kinds:
  "count_kind createDeck c v = (if v = 0 then 1 else if v \<le> 9 then 2 else 0)"
proof (cases "v < 10")
  case True
  from deck_kinds_small [OF small_rank [OF True]] True show ?thesis by simp
next
  case False
  then have "9 < v" by simp
  from deck_kinds_large [OF this] False show ?thesis by simp
qed

lemma count_kind_mset: "mset xs = mset ys \<Longrightarrow> count_kind xs c v = count_kind ys c v"
proof -
  assume "mset xs = mset ys"
  then have "size (filter_mset (\<lambda>k. color k = c \<and> rank k = v) (mset xs)) =
             size (filter_mset (\<lambda>k. color k = c \<and> rank k = v) (mset ys))" by simp
  then show ?thesis by (simp add: count_kind_def flip: mset_filter)
qed

section \<open>Dealing to two players\<close>

lemma deal_round_two:
  assumes "players st = [q0, q1]" and "player_id q0 = a" and "player_id q1 = b" and "a \<noteq> b"
    and "2 \<le> length deck"
  shows "deal_round [a, b] (deck, st) =
     Inr (butlast (butlast deck),
          st\<lparr>players := [q0\<lparr>hand := hand q0 @ [last deck]\<rparr>,
                          q1\<lparr>hand := hand q1 @ [last (butlast deck)]\<rparr>]\<rparr>)"
proof -
  from assms(5) have ne: "deck \<noteq> []" "butlast deck \<noteq> []"
    by (cases deck rule: rev_cases; auto)+
  show ?thesis
    using assms(1-4) ne
    by (simp add: drawTopCard_def findPlayerIndex_def pushToHand_def)
qed

lemma deal_rounds_two:
  assumes "players st = [q0, q1]" and "playerOrder st = [a, b]"
    and "player_id q0 = a" and "player_id q1 = b" and "a \<noteq> b"
    and "2 * n \<le> length deck"
  shows "deal_rounds n (deck, st) =
     Inr (take (length deck - 2 * n) deck,
          st\<lparr>players :=
               [q0\<lparr>hand := hand q0 @ map (\<lambda>r. deck ! (length deck - 1 - 2 * r)) [0..<n]\<rparr>,
                q1\<lparr>hand := hand q1 @ map (\<lambda>r. deck ! (length deck - 2 - 2 * r)) [0..<n]\<rparr>]\<rparr>)"
  using assms
proof (induction n arbitrary: deck st q0 q1)
  case 0
  then show ?case by simp
next
  case (Suc n)
  let ?d1 = "butlast (butlast deck)"
  let ?q0 = "q0\<lparr>hand := hand q0 @ [last deck]\<rparr>"
  let ?q1 = "q1\<lparr>hand := hand q1 @ [last (butlast deck)]\<rparr>"
  let ?st1 = "st\<lparr>players := [?q0, ?q1]\<rparr>"
  let ?L = "length deck"
  from Suc.prems(6) have L: "2 \<le> ?L" "2 * n \<le> length ?d1" by simp_all
  from L(1) have ne: "deck \<noteq> []" "butlast deck \<noteq> []"
    by (cases deck rule: rev_cases; auto)+
  have r1: "deal_round (playerOrder st) (deck, st) = Inr (?d1, ?st1)"
    using deal_round_two [OF Suc.prems(1,3,4,5) L(1)] Suc.prems(2) by simp
  have ih: "deal_rounds n (?d1, ?st1) =
     Inr (take (length ?d1 - 2 * n) ?d1,
          ?st1\<lparr>players :=
               [?q0\<lparr>hand := hand ?q0 @ map (\<lambda>r. ?d1 ! (length ?d1 - 1 - 2 * r)) [0..<n]\<rparr>,
                ?q1\<lparr>hand := hand ?q1 @ map (\<lambda>r. ?d1 ! (length ?d1 - 2 - 2 * r)) [0..<n]\<rparr>]\<rparr>)"
    by (rule Suc.IH) (use Suc.prems L in simp_all)
  have d1: "?d1 = take (?L - 2) deck" by (simp add: butlast_conv_take numeral_2_eq_2)
  have tk: "take (length ?d1 - 2 * n) ?d1 = take (?L - 2 * Suc n) deck"
    by (simp add: d1 min_def)
  have l0: "last deck = deck ! (?L - 1)" using ne by (simp add: last_conv_nth)
  have l1: "last (butlast deck) = deck ! (?L - 2)"
    using ne L(1) by (simp add: last_conv_nth nth_butlast numeral_2_eq_2)
  have ld1: "length ?d1 = ?L - 2" by (simp add: d1)
  have m0: "map (\<lambda>r. ?d1 ! (length ?d1 - 1 - 2 * r)) [0..<n] =
            map (\<lambda>r. deck ! (?L - 1 - 2 * Suc r)) [0..<n]"
  proof (rule map_cong [OF refl])
    fix r assume "r \<in> set [0..<n]"
    then have rn: "r < n" by simp
    have e: "length ?d1 - 1 - 2 * r = ?L - 1 - 2 * Suc r" unfolding ld1 by arith
    have b: "?L - 1 - 2 * Suc r < ?L - 2" using rn Suc.prems(6) by arith
    show "?d1 ! (length ?d1 - 1 - 2 * r) = deck ! (?L - 1 - 2 * Suc r)"
      unfolding e by (simp only: d1 nth_take [OF b])
  qed
  have m1: "map (\<lambda>r. ?d1 ! (length ?d1 - 2 - 2 * r)) [0..<n] =
            map (\<lambda>r. deck ! (?L - 2 - 2 * Suc r)) [0..<n]"
  proof (rule map_cong [OF refl])
    fix r assume "r \<in> set [0..<n]"
    then have rn: "r < n" by simp
    have e: "length ?d1 - 2 - 2 * r = ?L - 2 - 2 * Suc r" unfolding ld1 by arith
    have b: "?L - 2 - 2 * Suc r < ?L - 2" using rn Suc.prems(6) by arith
    show "?d1 ! (length ?d1 - 2 - 2 * r) = deck ! (?L - 2 - 2 * Suc r)"
      unfolding e by (simp only: d1 nth_take [OF b])
  qed
  have u0: "map (\<lambda>r. deck ! (?L - 1 - 2 * r)) [0..<Suc n] =
            deck ! (?L - 1) # map (\<lambda>r. deck ! (?L - 1 - 2 * Suc r)) [0..<n]"
    by (simp only: map_upt_Suc) simp
  have u1: "map (\<lambda>r. deck ! (?L - 2 - 2 * r)) [0..<Suc n] =
            deck ! (?L - 2) # map (\<lambda>r. deck ! (?L - 2 - 2 * Suc r)) [0..<n]"
    by (simp only: map_upt_Suc) simp
  have "deal_rounds (Suc n) (deck, st) = deal_rounds n (?d1, ?st1)"
    by (simp add: r1)
  also note ih
  finally show ?case
    by (simp only: tk m0 m1 u0 u1 l0 l1) simp
qed

section \<open>The start of a game and the cards in play\<close>

lemma startGame_two:
  assumes inv: "game_inv s" and two: "length (players s) = 2"
    and np: "phase s \<noteq> InProgress" and nf: "phase s \<noteq> Finished"
  shows "startGame s random now =
     (Inr (),
      s\<lparr>players :=
           [(players s ! 0)\<lparr>hand := map (\<lambda>r. shuffle createDeck random ! (75 - 2 * r)) [0..<7]\<rparr>,
            (players s ! 1)\<lparr>hand := map (\<lambda>r. shuffle createDeck random ! (74 - 2 * r)) [0..<7]\<rparr>],
         drawPile := take 61 (shuffle createDeck random),
         discardPile := [shuffle createDeck random ! 61],
         currentColor := Some (color (shuffle createDeck random ! 61)),
         currentValue := Some (rank (shuffle createDeck random ! 61)),
         phase := InProgress, winnerId := None,
         turn := Some \<lparr>activePlayerId = Some (playerOrder s ! 0), hasDrawnCard = False\<rparr>,
         updatedAt := now\<rparr>)"
proof -
  let ?D = "shuffle createDeck random"
  from inv two np nf have ph: "phase s = ReadyToStart"
    by (cases "phase s") (simp_all add: game_inv_def)
  with inv have pr: "pristine s" and ord: "playerOrder s = map player_id (players s)"
    and dist: "distinct (map player_id (players s))"
    by (simp_all add: game_inv_def)
  from two obtain q0 q1 where ps: "players s = [q0, q1]"
    by (cases "players s"; simp) (rename_tac a list, case_tac list; simp)
  from pr ps have h: "hand q0 = []" "hand q1 = []" by (simp_all add: pristine_def)
  from ord ps have o: "playerOrder s = [player_id q0, player_id q1]" by simp
  from dist ps have ne: "player_id q0 \<noteq> player_id q1" by simp
  have len: "length ?D = 76" by (simp add: length_createDeck)
  then have le: "2 * 7 \<le> length ?D" by simp
  have dr: "deal_rounds 7 (?D, s) =
     Inr (take 62 ?D,
          s\<lparr>players :=
               [q0\<lparr>hand := map (\<lambda>r. ?D ! (75 - 2 * r)) [0..<7]\<rparr>,
                q1\<lparr>hand := map (\<lambda>r. ?D ! (74 - 2 * r)) [0..<7]\<rparr>]\<rparr>)"
    using deal_rounds_two [OF ps o refl refl ne le] h by (simp add: length_createDeck)
  have lt: "length (take 62 ?D) = 62" by (simp add: length_createDeck)
  then have t: "take 62 ?D \<noteq> []" by (metis length_0_conv zero_neq_numeral)
  have l: "last (take 62 ?D) = ?D ! 61"
    using t by (simp add: last_conv_nth length_createDeck)
  have b: "butlast (take 62 ?D) = take 61 ?D"
    by (simp add: butlast_take length_createDeck)
  show ?thesis
    using two ph dr t l b ps o
    by (simp add: startGame_def CARDS_PER_PLAYER_def drawTopCard_def refreshTimestamp_def
        firstOfOrder_def)
qed

lemma failed_fst: "failed r \<longleftrightarrow> (\<exists>e. fst r = Inl e)"
  by (cases r, rename_tac a b, case_tac a) simp_all

lemma join_phase:
  assumes "game_inv s"
  shows "phase_rank (phase s) \<le> phase_rank (phase (snd (joinGame s p now)))"
proof (cases "failed (joinGame s p now)")
  case True
  from join_fail [OF True] show ?thesis by simp
next
  case False
  then have "length (players s) < 2" by (auto simp: joinGame_def split: if_splits)
  with assms have "phase s = WaitingForPlayer" by (cases "phase s"; simp add: game_inv_def)
  then show ?thesis by simp
qed

lemma start_when_started:
  "phase s = InProgress \<or> phase s = Finished \<Longrightarrow>
   failed (startGame s random now) \<and> snd (startGame s random now) = s"
  by (auto simp: startGame_def)

lemma start_phase:
  assumes "game_inv s"
  shows "phase_rank (phase s) \<le> phase_rank (phase (snd (startGame s random now)))"
    and "\<not> failed (startGame s random now) \<Longrightarrow> phase (snd (startGame s random now)) = InProgress"
proof -
  show "phase_rank (phase s) \<le> phase_rank (phase (snd (startGame s random now)))"
  proof (cases "phase s")
    case WaitingForPlayer
    then show ?thesis by simp
  next
    case ReadyToStart
    from startGame_ready [OF assms this, of random now] ReadyToStart show ?thesis by auto
  next
    case InProgress
    with start_when_started [of s random now] show ?thesis by simp
  next
    case Finished
    with start_when_started [of s random now] show ?thesis by simp
  qed
  show "\<not> failed (startGame s random now) \<Longrightarrow> phase (snd (startGame s random now)) = InProgress"
  proof (cases "phase s")
    case WaitingForPlayer
    assume "\<not> failed (startGame s random now)"
    with assms WaitingForPlayer show ?thesis by (simp add: game_inv_def startGame_def)
  next
    case ReadyToStart
    from startGame_ready [OF assms this, of random now] show ?thesis by auto
  next
    case InProgress
    assume "\<not> failed (startGame s random now)"
    with InProgress start_when_started [of s random now] show ?thesis by simp
  next
    case Finished
    assume "\<not> failed (startGame s random now)"
    with Finished start_when_started [of s random now] show ?thesis by simp
  qed
qed

lemma played_phase:
  "phase s = InProgress \<Longrightarrow>
   phase (played s p i ci now) = InProgress \<or> phase (played s p i ci now) = Finished"
  by (simp add: played_def Let_def)

lemma play_phase:
  shows "phase_rank (phase s) \<le> phase_rank (phase (snd (playCard s p cid now)))"
    and "\<not> failed (playCard s p cid now) \<Longrightarrow> has_started (snd (playCard s p cid now))"
proof -
  show "phase_rank (phase s) \<le> phase_rank (phase (snd (playCard s p cid now)))"
  proof (cases "failed (playCard s p cid now)")
    case True
    from play_fail [OF True] show ?thesis by simp
  next
    case False
    from play_success [OF False] obtain i ci where
      "phase s = InProgress" "playCard s p cid now = (Inr (), played s p i ci now)" by blast
    with played_phase [of s p i ci now] show ?thesis by auto
  qed
  show "has_started (snd (playCard s p cid now))" if "\<not> failed (playCard s p cid now)"
  proof -
    from play_success [OF that] obtain i ci where
      "phase s = InProgress" "playCard s p cid now = (Inr (), played s p i ci now)" by blast
    with played_phase [of s p i ci now] show ?thesis by (auto simp: has_started_def)
  qed
qed

lemma draw_phase:
  assumes "game_inv s"
  shows "phase (snd (drawCard s p random now)) = phase s"
proof (cases "failed (drawCard s p random now)")
  case True
  from draw_fail [OF assms True] show ?thesis by simp
next
  case False
  from draw_success [OF False] obtain i c b where
    "drawCard s p random now = (Inr (c, b), drawn s i random now)" by blast
  then show ?thesis by (simp add: drawn_def Let_def)
qed

lemma pass_phase: "phase (snd (passTurn s p now)) = phase s"
  by (auto simp: passTurn_def refreshTimestamp_def advanceTurn_def
      split: sum.splits option.splits)

lemma call_phase:
  "game_inv s \<Longrightarrow> phase_rank (phase s) \<le> phase_rank (phase (after_call c s))"
  by (cases c) (simp_all add: join_phase start_phase(1) play_phase(1) draw_phase pass_phase)

lemma has_started_rank: "has_started s \<longleftrightarrow> 2 \<le> phase_rank (phase s)"
  by (cases "phase s") (simp_all add: has_started_def)

lemma in_play_reachable: "in_play s \<Longrightarrow> reachable s \<and> has_started s"
proof (induction rule: in_play.induct)
  case (started s random now)
  have "reachable (after_call (Start random now) s)" using started(1) by (rule reachable.called)
  moreover have "has_started (snd (startGame s random now))"
    using start_phase(2) [OF reachable_inv [OF started(1)] started(2)]
    by (simp add: has_started_def)
  ultimately show ?case by simp
next
  case (moved s c)
  then have r: "reachable s" and h: "has_started s" by simp_all
  from call_phase [OF reachable_inv [OF r], of c] h
  have "has_started (after_call c s)" by (simp add: has_started_rank)
  with reachable.called [OF r, of c] show ?case by simp
qed

lemma started_dealt: "reachable s \<Longrightarrow> has_started s \<Longrightarrow> dealt s"
  using reachable_inv [of s] by (auto simp: game_inv_def has_started_def)

lemma unstarted_pristine: "reachable s \<Longrightarrow> \<not> has_started s \<Longrightarrow> pristine s"
  using reachable_inv [of s] by (cases "phase s") (auto simp: game_inv_def has_started_def)

lemma readyGame_eq:
  "readyGame =
     \<lparr>roomId = ''room-1'', phase = ReadyToStart,
      players = [\<lparr>player_id = ''alice'', hand = []\<rparr>, \<lparr>player_id = ''bob'', hand = []\<rparr>],
      playerOrder = [''alice'', ''bob''], drawPile = [], discardPile = [],
      currentColor = None, currentValue = None, winnerId = None, turn = None,
      createdAt = 1000, updatedAt = 1001\<rparr>"
  by (simp add: readyGame_def joinGame_def createGame_def findPlayerIndex_def Let_def
      refreshTimestamp_def)

lemma readyGame_reachable: "reachable readyGame"
proof -
  have "reachable (after_call (Join ''bob'' 1001) (createGame ''room-1'' ''alice'' 1000 1000))"
    by (intro reachable.intros)
  then show ?thesis by (simp add: readyGame_def)
qed

lemma startedGame_ok: "\<not> failed (startGame readyGame (\<lambda>k. unit_zero) 1002)"
  using startGame_two [OF reachable_inv [OF readyGame_reachable], of "\<lambda>k. unit_zero" 1002]
  by (simp add: readyGame_eq)

lemma startedGame_in_play: "in_play startedGame"
  unfolding startedGame_def
  using readyGame_reachable startedGame_ok by (rule in_play.started)

text \<open>Claim C1. In every state that a successful \<^verbatim>\<open>startGame\<close> of a reachable game
  leads to, and in every state that any further calls of the engine lead to from there, the
  cards of all hands, the draw pile and the discard pile together are exactly the cards of
  \<^verbatim>\<open>createDeck\<close>: as a multiset they are the deck itself, so there are 76 of them, and of
  every color there is one card of rank 0, two cards of each rank from 1 to 9 and no card of
  another rank. No call creates or destroys a card.\<close>

theorem cards_conserved:
  "in_play s \<Longrightarrow>
     mset (all_cards s) = mset createDeck \<and> length (all_cards s) = 76 \<and>
     (\<forall>c v. count_kind (all_cards s) c v = (if v = 0 then 1 else if v \<le> 9 then 2 else 0))"
proof -
  assume "in_play s"
  then have "reachable s" "has_started s" by (simp_all add: in_play_reachable)
  then have m: "mset (all_cards s) = mset createDeck" using started_dealt by (simp add: dealt_def)
  then have "length (all_cards s) = length createDeck" by (rule mset_eq_length)
  with m show ?thesis
    by (simp add: length_createDeck count_kind_mset [OF m] deck_kinds)
qed

theorem cards_conserved_witness:
  "in_play startedGame \<and> mset (all_cards startedGame) = mset createDeck \<and>
   length (all_cards startedGame) = 76 \<and> count_kind (all_cards startedGame) Red 0 = 1 \<and>
   count_kind (all_cards startedGame) Blue 7 = 2"
  using cards_conserved [OF startedGame_in_play] startedGame_in_play by simp

section \<open>The current color and the card ids\<close>

lemma successful_start_or_play:
  assumes "reachable s"
  shows "\<not> failed (startGame s random now) \<Longrightarrow> top_matches (snd (startGame s random now))"
    and "\<not> failed (playCard s p cid now) \<Longrightarrow> top_matches (snd (playCard s p cid now))"
proof -
  note inv = reachable_inv [OF assms]
  show "top_matches (snd (startGame s random now))" if nf: "\<not> failed (startGame s random now)"
  proof -
    have r: "reachable (after_call (Start random now) s)" using assms by (rule reachable.called)
    have "has_started (snd (startGame s random now))"
      using start_phase(2) [OF inv nf] by (simp add: has_started_def)
    with r started_dealt [of "snd (startGame s random now)"] show ?thesis
      by (simp add: dealt_def top_matches_def)
  qed
  show "top_matches (snd (playCard s p cid now))" if nf: "\<not> failed (playCard s p cid now)"
  proof -
    have r: "reachable (after_call (Play p cid now) s)" using assms by (rule reachable.called)
    with play_phase(2) [OF nf] started_dealt [of "snd (playCard s p cid now)"] show ?thesis
      by (simp add: dealt_def top_matches_def)
  qed
qed

text \<open>Claim C2. In every reachable state the current color is defined exactly when the
  phase is in-progress or finished, and so is the current value; when they are defined the
  discard pile is not empty and they are the color and the rank of its last card. In
  particular the state after a successful \<^verbatim>\<open>startGame\<close> and the state after a successful
  \<^verbatim>\<open>playCard\<close> have the current color and value of the top of the discard pile.\<close>

theorem current_is_discard_top:
  "reachable s \<Longrightarrow>
     (currentColor s \<noteq> None \<longleftrightarrow> has_started s) \<and>
     (currentValue s \<noteq> None \<longleftrightarrow> has_started s) \<and>
     (has_started s \<longrightarrow> top_matches s) \<and>
     (\<not> failed (startGame s random now) \<longrightarrow> top_matches (snd (startGame s random now))) \<and>
     (\<not> failed (playCard s p cid now) \<longrightarrow> top_matches (snd (playCard s p cid now)))"
proof -
  assume r: "reachable s"
  show ?thesis
  proof (cases "has_started s")
    case True
    from started_dealt [OF r True] True successful_start_or_play [OF r] show ?thesis
      by (simp add: dealt_def top_matches_def)
  next
    case False
    from unstarted_pristine [OF r False] False successful_start_or_play [OF r] show ?thesis
      by (simp add: pristine_def)
  qed
qed

lemma startedGame_reachable: "reachable startedGame"
  using startedGame_in_play by (simp add: in_play_reachable)

theorem current_is_discard_top_witness:
  "reachable startedGame \<and> has_started startedGame \<and> top_matches startedGame \<and>
   currentColor startedGame \<noteq> None \<and> currentValue startedGame \<noteq> None"
  using current_is_discard_top [OF startedGame_reachable, of "\<lambda>k. unit_zero" 0 "''alice''" "''x''"]
    startedGame_reachable startedGame_in_play
  by (simp add: in_play_reachable)

lemma distinct_ids_mset:
  assumes "mset xs = mset ys" and "distinct (map card_id ys)"
  shows "distinct (map card_id xs)"
proof -
  from assms(1) have "mset (map card_id xs) = mset (map card_id ys)" by simp
  with assms(2) show ?thesis by (metis mset_eq_imp_distinct_iff)
qed

lemma reachable_distinct_ids: "reachable s \<Longrightarrow> distinct (map card_id (all_cards s))"
proof (cases "has_started s")
  case True
  assume "reachable s"
  from started_dealt [OF this True] have "mset (all_cards s) = mset createDeck"
    by (simp add: dealt_def)
  then show ?thesis using deck_distinct by (rule distinct_ids_mset)
next
  case False
  assume "reachable s"
  from unstarted_pristine [OF this False] have "all_cards s = []"
    by (auto simp: pristine_def all_cards_def list_all_iff)
  then show ?thesis by simp
qed

lemma distinct_map_filter_le1:
  "distinct (map f xs) \<Longrightarrow> length (filter (\<lambda>x. f x = y) xs) \<le> 1"
proof (induction xs)
  case Nil
  then show ?case by simp
next
  case (Cons x xs)
  show ?case
  proof (cases "f x = y")
    case True
    from Cons.prems have "f x \<notin> f ` set xs" by simp
    with True have "\<forall>z\<in>set xs. f z \<noteq> y" by blast
    then have "filter (\<lambda>x. f x = y) xs = []" by (simp add: filter_empty_conv)
    with True show ?thesis by simp
  next
    case False
    with Cons show ?thesis by simp
  qed
qed

lemma hand_in_all_cards:
  "pl \<in> set (players s) \<Longrightarrow> set (hand pl) \<subseteq> set (all_cards s)"
  by (auto simp: all_cards_def)

lemma distinct_hand:
  assumes "distinct (map card_id (all_cards s))" and "pl \<in> set (players s)"
  shows "distinct (map card_id (hand pl))"
proof -
  from assms(2) obtain a b where ab: "players s = a @ pl # b" by (auto simp: in_set_conv_decomp)
  have "all_cards s = concat (map hand a) @ hand pl @ (concat (map hand b) @ drawPile s @ discardPile s)"
    by (simp add: all_cards_def ab)
  with assms(1) show ?thesis by simp
qed

text \<open>Claim C10. The cards of \<^verbatim>\<open>createDeck\<close> carry the ids card-0, card-1, ... card-75 in
  this order, which are pairwise different. In every reachable state the cards of all
  hands and both piles have pairwise different ids, so in any player's hand at most one
  card has a given id: the lookup of \<^verbatim>\<open>playCard\<close> by id finds at most one card.\<close>

theorem card_ids_distinct:
  "map card_id createDeck = map (\<lambda>n. ''card-'' @ decimal n) [0..<76] \<and>
   distinct (map card_id createDeck) \<and>
   (reachable s \<longrightarrow>
      distinct (map card_id (all_cards s)) \<and>
      (\<forall>pl\<in>set (players s). \<forall>cid. length (filter (\<lambda>c. card_id c = cid) (hand pl)) \<le> 1))"
proof -
  have "\<forall>pl\<in>set (players s). \<forall>cid. length (filter (\<lambda>c. card_id c = cid) (hand pl)) \<le> 1"
    if r: "reachable s"
  proof (intro ballI allI)
    fix pl cid assume "pl \<in> set (players s)"
    with reachable_distinct_ids [OF r] have "distinct (map card_id (hand pl))"
      by (rule distinct_hand)
    then show "length (filter (\<lambda>c. card_id c = cid) (hand pl)) \<le> 1"
      by (rule distinct_map_filter_le1)
  qed
  with deck_ids deck_distinct reachable_distinct_ids show ?thesis by blast
qed

theorem card_ids_distinct_witness:
  "reachable startedGame \<and> distinct (map card_id (all_cards startedGame)) \<and>
   length (filter (\<lambda>c. card_id c = ''card-7'') (hand (players startedGame ! 0))) \<le> 1"
proof -
  have "has_started startedGame" using startedGame_in_play by (simp add: in_play_reachable)
  then have "length (players startedGame) = 2"
    using reachable_inv [OF startedGame_reachable] by (auto simp: game_inv_def has_started_def)
  then have "players startedGame ! 0 \<in> set (players startedGame)" by simp
  with card_ids_distinct [of startedGame] startedGame_reachable show ?thesis by blast
qed

section \<open>Start, draw and play\<close>

text \<open>Claim C5. For a reachable game with exactly two players that has not started,
  \<^verbatim>\<open>startGame\<close> succeeds with any source. With \<open>D\<close> the shuffled fresh deck of 76 cards
  (top at the end), the first player of the turn order holds the seven cards
  \<open>D ! 75, D ! 73, ... D ! 63\<close> and the second the seven cards \<open>D ! 74, D ! 72, ... D ! 62\<close>,
  each in this order: the cards are dealt from the top one per player per round. The next
  card \<open>D ! 61\<close> is the whole discard pile and gives the current color and value, the
  61 cards below it are the draw pile, the turn belongs to the first player of the turn
  order, who has not drawn, the phase is in-progress and there is no winner.\<close>

theorem startGame_deals:
  "reachable s \<Longrightarrow> length (players s) = 2 \<Longrightarrow> phase s \<noteq> InProgress \<Longrightarrow> phase s \<noteq> Finished \<Longrightarrow>
     (let D = shuffle createDeck random; s' = snd (startGame s random now)
      in fst (startGame s random now) = Inr () \<and>
         mset D = mset createDeck \<and> length D = 76 \<and>
         playerOrder s' = playerOrder s \<and> map player_id (players s') = playerOrder s \<and>
         length (players s') = 2 \<and>
         hand (players s' ! 0) = map (\<lambda>r. D ! (75 - 2 * r)) [0..<7] \<and>
         hand (players s' ! 1) = map (\<lambda>r. D ! (74 - 2 * r)) [0..<7] \<and>
         discardPile s' = [D ! 61] \<and>
         currentColor s' = Some (color (D ! 61)) \<and> currentValue s' = Some (rank (D ! 61)) \<and>
         drawPile s' = take 61 D \<and>
         turn s' = Some \<lparr>activePlayerId = Some (playerOrder s ! 0), hasDrawnCard = False\<rparr> \<and>
         phase s' = InProgress \<and> winnerId s' = None)"
proof -
  assume r: "reachable s" and two: "length (players s) = 2"
    and np: "phase s \<noteq> InProgress" and nf: "phase s \<noteq> Finished"
  note inv = reachable_inv [OF r]
  from inv have ord: "playerOrder s = map player_id (players s)" by (simp add: game_inv_def)
  from two obtain q0 q1 where ps: "players s = [q0, q1]"
    by (cases "players s"; simp) (rename_tac a list, case_tac list; simp)
  show ?thesis
    unfolding Let_def startGame_two [OF inv two np nf]
    using ord ps by (simp add: length_createDeck)
qed

theorem startGame_deals_witness:
  "reachable readyGame \<and> length (players readyGame) = 2 \<and> phase readyGame \<noteq> InProgress \<and>
   phase readyGame \<noteq> Finished \<and> fst (startGame readyGame (\<lambda>k. unit_zero) 1002) = Inr () \<and>
   length (hand (players startedGame ! 0)) = 7 \<and> length (hand (players startedGame ! 1)) = 7 \<and>
   length (drawPile startedGame) = 61 \<and> length (discardPile startedGame) = 1 \<and>
   turn startedGame = Some \<lparr>activePlayerId = Some ''alice'', hasDrawnCard = False\<rparr> \<and>
   phase startedGame = InProgress"
proof -
  have h: "length (players readyGame) = 2" "phase readyGame \<noteq> InProgress"
    "phase readyGame \<noteq> Finished" "playerOrder readyGame ! 0 = ''alice''"
    by (simp_all add: readyGame_eq)
  from startGame_deals [OF readyGame_reachable h(1,2,3), of "\<lambda>k. unit_zero" 1002]
    readyGame_reachable h
  show ?thesis by (simp add: Let_def startedGame_def length_createDeck)
qed

text \<open>Claim C7, as the code has it. In a state in progress whose active player is seated,
  has not drawn and holds no playable card, with an empty draw pile and exactly three
  cards on the discard pile, \<^verbatim>\<open>drawCard\<close> succeeds: the two lower discard cards are
  shuffled into a draw pile of two, the drawn card is taken from it into the hand, and the
  state the call leaves has a draw pile of one card, a discard pile of one card, which is
  the top card of before, and the player has drawn.\<close>

theorem draw_after_reshuffle:
  "phase s = InProgress \<Longrightarrow>
   turn s = Some \<lparr>activePlayerId = Some p, hasDrawnCard = False\<rparr> \<Longrightarrow>
   findPlayerIndex s p = Some i \<Longrightarrow>
   (\<forall>c\<in>set (hand (players s ! i)). \<not> isCardPlayable c (currentColor s) (currentValue s)) \<Longrightarrow>
   drawPile s = [] \<Longrightarrow> length (discardPile s) = 3 \<Longrightarrow>
     (let pile = shuffle (butlast (discardPile s)) random; s' = snd (drawCard s p random now)
      in length pile = 2 \<and> mset pile = mset (butlast (discardPile s)) \<and>
         fst (drawCard s p random now) =
           Inr (last pile, isCardPlayable (last pile) (currentColor s) (currentValue s)) \<and>
         drawPile s' = butlast pile \<and> length (drawPile s') = 1 \<and>
         discardPile s' = [last (discardPile s)] \<and> length (discardPile s') = 1 \<and>
         hand (players s' ! i) = hand (players s ! i) @ [last pile] \<and>
         turn s' = Some \<lparr>activePlayerId = Some p, hasDrawnCard = True\<rparr> \<and>
         phase s' = InProgress)"
proof -
  assume ph: "phase s = InProgress"
    and t: "turn s = Some \<lparr>activePlayerId = Some p, hasDrawnCard = False\<rparr>"
    and i: "findPlayerIndex s p = Some i"
    and np: "\<forall>c\<in>set (hand (players s ! i)). \<not> isCardPlayable c (currentColor s) (currentValue s)"
    and e: "drawPile s = []" and l: "length (discardPile s) = 3"
  have a: "activePlayerId \<lparr>activePlayerId = Some p, hasDrawnCard = False\<rparr> = Some p"
    and nd: "\<not> hasDrawnCard \<lparr>activePlayerId = Some p, hasDrawnCard = False\<rparr>" by simp_all
  have "filter (\<lambda>c. isCardPlayable c (currentColor s) (currentValue s)) (hand (players s ! i)) = []"
    using np by (simp add: filter_empty_conv)
  then have hp: "\<not> has_playable s p"
    using i by (simp add: has_playable_def listPlayableCards_def)
  have av: "drawPile s \<noteq> [] \<or> 2 \<le> length (discardPile s)" using l by simp
  from i have il: "i < length (players s)" by (simp add: findPlayerIndex_Some)
  show ?thesis
    unfolding Let_def drawCard_ok [OF ph t a nd hp av i]
    using e l il t ph
    by (simp add: piles_for_draw_def drawn_def Let_def)
qed

theorem draw_after_reshuffle_witness:
  "phase reshuffleState = InProgress \<and> drawPile reshuffleState = [] \<and>
   length (discardPile reshuffleState) = 3 \<and>
   length (drawPile (snd (drawCard reshuffleState ''alice'' (\<lambda>k. unit_half) 2000))) = 1 \<and>
   discardPile (snd (drawCard reshuffleState ''alice'' (\<lambda>k. unit_half) 2000)) =
     [\<lparr>card_id = ''top'', color = Red, rank = 5\<rparr>]"
proof -
  have h: "phase reshuffleState = InProgress"
    "turn reshuffleState = Some \<lparr>activePlayerId = Some ''alice'', hasDrawnCard = False\<rparr>"
    "findPlayerIndex reshuffleState ''alice'' = Some 0"
    "\<forall>c\<in>set (hand (players reshuffleState ! 0)).
       \<not> isCardPlayable c (currentColor reshuffleState) (currentValue reshuffleState)"
    "drawPile reshuffleState = []" "length (discardPile reshuffleState) = 3"
    by (simp_all add: reshuffleState_def createStartedState_def findPlayerIndex_def
        isCardPlayable_def)
  have d: "last (discardPile reshuffleState) = \<lparr>card_id = ''top'', color = Red, rank = 5\<rparr>"
    by (simp add: reshuffleState_def createStartedState_def)
  from draw_after_reshuffle [OF h, of "\<lambda>k. unit_half" 2000] h(1,5,6) d
  show ?thesis by (simp add: Let_def)
qed

text \<open>The state of the repository's reshuffle test meets every condition of claim C7, and
  the draw pile that \<^verbatim>\<open>drawCard\<close> leaves has one card, not two (the test expects the
  same: \<^verbatim>\<open>expect(game.drawPile.length).toBe(1)\<close>).\<close>

theorem draw_after_reshuffle_counterexample:
  "phase reshuffleState = InProgress \<and>
   turn reshuffleState = Some \<lparr>activePlayerId = Some ''alice'', hasDrawnCard = False\<rparr> \<and>
   listPlayableCards reshuffleState ''alice'' = Inr [] \<and>
   drawPile reshuffleState = [] \<and> length (discardPile reshuffleState) = 3 \<and>
   fst (drawCard reshuffleState ''alice'' (\<lambda>k. unit_half) 2000) =
     Inr (\<lparr>card_id = ''rest-2'', color = Blue, rank = 2\<rparr>, False) \<and>
   length (drawPile (snd (drawCard reshuffleState ''alice'' (\<lambda>k. unit_half) 2000))) = 1 \<and>
   length (drawPile (snd (drawCard reshuffleState ''alice'' (\<lambda>k. unit_half) 2000))) \<noteq> 2"
  by (simp add: reshuffleState_def createStartedState_def drawCard_def ensureActivePlayer_def
      listPlayableCards_def findPlayerIndex_def isCardPlayable_def replenishDrawPile_def
      shuffle_def floor_scaled_half drawTopCard_def pushToHand_def refreshTimestamp_def Let_def
      numeral_2_eq_2)

lemma playCard_errs:
  "phase s \<noteq> InProgress \<Longrightarrow> playCard s p cid now = (Inl GAME_NOT_READY, s)"
  "phase s = InProgress \<Longrightarrow> \<not> is_active s p \<Longrightarrow> playCard s p cid now = (Inl NOT_PLAYER_TURN, s)"
  "phase s = InProgress \<Longrightarrow> is_active s p \<Longrightarrow> findPlayerIndex s p = None \<Longrightarrow>
     playCard s p cid now = (Inl PLAYER_ALREADY_JOINED, s)"
  "phase s = InProgress \<Longrightarrow> is_active s p \<Longrightarrow> findPlayerIndex s p = Some i \<Longrightarrow>
     findIndex (\<lambda>c. card_id c = cid) (hand (players s ! i)) = None \<Longrightarrow>
     playCard s p cid now = (Inl CARD_NOT_FOUND, s)"
  "phase s = InProgress \<Longrightarrow> is_active s p \<Longrightarrow> findPlayerIndex s p = Some i \<Longrightarrow>
     findIndex (\<lambda>c. card_id c = cid) (hand (players s ! i)) = Some ci \<Longrightarrow>
     \<not> isCardPlayable (hand (players s ! i) ! ci) (currentColor s) (currentValue s) \<Longrightarrow>
     playCard s p cid now = (Inl CARD_NOT_PLAYABLE, s)"
  by (auto simp: playCard_def is_active_def ensureActivePlayer_def Let_def split: option.splits)

lemma getNext_wraps:
  "findIndex (\<lambda>q. q = p) (playerOrder s) = Some k \<Longrightarrow>
   getNextPlayerId s (Some p) = Some (playerOrder s ! ((k + 1) mod length (playerOrder s)))"
  by (simp add: getNextPlayerId_def Let_def)

lemma playCard_cases:
  "(phase s \<noteq> InProgress \<longrightarrow> playCard s p cid now = (Inl GAME_NOT_READY, s)) \<and>
   (phase s = InProgress \<and> \<not> is_active s p \<longrightarrow>
      playCard s p cid now = (Inl NOT_PLAYER_TURN, s)) \<and>
   (phase s = InProgress \<and> is_active s p \<and> findPlayerIndex s p = None \<longrightarrow>
      playCard s p cid now = (Inl PLAYER_ALREADY_JOINED, s)) \<and>
   (phase s = InProgress \<and> is_active s p \<and> findPlayerIndex s p = Some i \<and>
    cid \<notin> card_id ` set (hand (players s ! i)) \<longrightarrow>
      playCard s p cid now = (Inl CARD_NOT_FOUND, s)) \<and>
   (phase s = InProgress \<and> is_active s p \<and> findPlayerIndex s p = Some i \<and>
    findIndex (\<lambda>c. card_id c = cid) (hand (players s ! i)) = Some ci \<longrightarrow>
      (let h = hand (players s ! i); c = h ! ci; h' = take ci h @ drop (Suc ci) h;
           s' = snd (playCard s p cid now)
       in ci < length h \<and> card_id c = cid \<and> (\<forall>j<ci. card_id (h ! j) \<noteq> cid) \<and>
          (\<not> isCardPlayable c (currentColor s) (currentValue s) \<longrightarrow>
             playCard s p cid now = (Inl CARD_NOT_PLAYABLE, s)) \<and>
          (isCardPlayable c (currentColor s) (currentValue s) \<longrightarrow>
             fst (playCard s p cid now) = Inr () \<and>
             players s' = (players s)[i := (players s ! i)\<lparr>hand := h'\<rparr>] \<and>
             discardPile s' = discardPile s @ [c] \<and> drawPile s' = drawPile s \<and>
             playerOrder s' = playerOrder s \<and>
             currentColor s' = Some (color c) \<and> currentValue s' = Some (rank c) \<and>
             updatedAt s' = now \<and>
             (h' = [] \<longrightarrow> phase s' = Finished \<and> winnerId s' = Some p \<and> turn s' = None) \<and>
             (h' \<noteq> [] \<longrightarrow>
                phase s' = InProgress \<and> winnerId s' = winnerId s \<and>
                turn s' = Some \<lparr>activePlayerId = getNextPlayerId s (Some p),
                                hasDrawnCard = False\<rparr> \<and>
                (\<forall>k. findIndex (\<lambda>q. q = p) (playerOrder s) = Some k \<longrightarrow>
                   getNextPlayerId s (Some p) =
                     Some (playerOrder s ! ((k + 1) mod length (playerOrder s))))))))"
proof (intro conjI impI)
  show "playCard s p cid now = (Inl GAME_NOT_READY, s)" if "phase s \<noteq> InProgress"
    using that by (rule playCard_errs(1))
  show "playCard s p cid now = (Inl NOT_PLAYER_TURN, s)" if "phase s = InProgress \<and> \<not> is_active s p"
    using that by (simp add: playCard_errs(2))
  show "playCard s p cid now = (Inl PLAYER_ALREADY_JOINED, s)"
    if "phase s = InProgress \<and> is_active s p \<and> findPlayerIndex s p = None"
    using that by (simp add: playCard_errs(3))
  show "playCard s p cid now = (Inl CARD_NOT_FOUND, s)"
    if a: "phase s = InProgress \<and> is_active s p \<and> findPlayerIndex s p = Some i \<and>
       cid \<notin> card_id ` set (hand (players s ! i))"
  proof -
    from a have "findIndex (\<lambda>c. card_id c = cid) (hand (players s ! i)) = None"
      by (auto simp: findIndex_None)
    with a show ?thesis by (simp add: playCard_errs(4))
  qed
  show "let h = hand (players s ! i); c = h ! ci; h' = take ci h @ drop (Suc ci) h;
           s' = snd (playCard s p cid now)
       in ci < length h \<and> card_id c = cid \<and> (\<forall>j<ci. card_id (h ! j) \<noteq> cid) \<and>
          (\<not> isCardPlayable c (currentColor s) (currentValue s) \<longrightarrow>
             playCard s p cid now = (Inl CARD_NOT_PLAYABLE, s)) \<and>
          (isCardPlayable c (currentColor s) (currentValue s) \<longrightarrow>
             fst (playCard s p cid now) = Inr () \<and>
             players s' = (players s)[i := (players s ! i)\<lparr>hand := h'\<rparr>] \<and>
             discardPile s' = discardPile s @ [c] \<and> drawPile s' = drawPile s \<and>
             playerOrder s' = playerOrder s \<and>
             currentColor s' = Some (color c) \<and> currentValue s' = Some (rank c) \<and>
             updatedAt s' = now \<and>
             (h' = [] \<longrightarrow> phase s' = Finished \<and> winnerId s' = Some p \<and> turn s' = None) \<and>
             (h' \<noteq> [] \<longrightarrow>
                phase s' = InProgress \<and> winnerId s' = winnerId s \<and>
                turn s' = Some \<lparr>activePlayerId = getNextPlayerId s (Some p),
                                hasDrawnCard = False\<rparr> \<and>
                (\<forall>k. findIndex (\<lambda>q. q = p) (playerOrder s) = Some k \<longrightarrow>
                   getNextPlayerId s (Some p) =
                     Some (playerOrder s ! ((k + 1) mod length (playerOrder s))))))"
    if a: "phase s = InProgress \<and> is_active s p \<and> findPlayerIndex s p = Some i \<and>
       findIndex (\<lambda>c. card_id c = cid) (hand (players s ! i)) = Some ci"
  proof -
    from a have ph: "phase s = InProgress" and i: "findPlayerIndex s p = Some i"
      and ci: "findIndex (\<lambda>c. card_id c = cid) (hand (players s ! i)) = Some ci"
      and act: "is_active s p" by simp_all
    from act obtain t where t: "turn s = Some t" "activePlayerId t = Some p"
      by (auto simp: is_active_def)
    note fi = findIndex_Some [OF ci]
    show ?thesis
    proof (cases "isCardPlayable (hand (players s ! i) ! ci) (currentColor s) (currentValue s)")
      case False
      with playCard_errs(5) [OF ph act i ci False] fi show ?thesis by (simp add: Let_def)
    next
      case True
      from playCard_ok [OF ph t i ci True] True fi ph getNext_wraps [of p s] show ?thesis
        by (simp add: Let_def played_def splice1_def)
    qed
  qed
qed


lemma turn_record: "activePlayerId t = Some p \<Longrightarrow>
  t\<lparr>hasDrawnCard := True\<rparr> = \<lparr>activePlayerId = Some p, hasDrawnCard = True\<rparr>"
  by (cases t) simp


section \<open>The phases and failed calls\<close>

lemma join_step:
  assumes "game_inv s"
  shows "phase_rank (phase (snd (joinGame s p now))) \<le> Suc (phase_rank (phase s))"
proof (cases "failed (joinGame s p now)")
  case True
  from join_fail [OF True] show ?thesis by simp
next
  case False
  then have "length (players s) < 2" by (auto simp: joinGame_def split: if_splits)
  with assms have "phase s = WaitingForPlayer" by (cases "phase s"; simp add: game_inv_def)
  with False show ?thesis
    by (auto simp: joinGame_def Let_def refreshTimestamp_def split: if_splits)
qed

lemma start_step:
  assumes "game_inv s"
  shows "phase_rank (phase (snd (startGame s random now))) \<le> Suc (phase_rank (phase s))"
proof (cases "failed (startGame s random now)")
  case True
  from start_fail [OF assms True] show ?thesis by simp
next
  case False
  have "phase s = ReadyToStart"
  proof (cases "phase s")
    case WaitingForPlayer
    with assms False show ?thesis by (simp add: game_inv_def startGame_def)
  next
    case InProgress
    with start_when_started [of s random now] False show ?thesis by simp
  next
    case Finished
    with start_when_started [of s random now] False show ?thesis by simp
  qed simp
  with start_phase(2) [OF assms False] show ?thesis by simp
qed

lemma play_step:
  "phase_rank (phase (snd (playCard s p cid now))) \<le> Suc (phase_rank (phase s))"
proof (cases "failed (playCard s p cid now)")
  case True
  from play_fail [OF True] show ?thesis by simp
next
  case False
  from play_success [OF False] obtain i ci where
    "phase s = InProgress" "playCard s p cid now = (Inr (), played s p i ci now)" by blast
  with played_phase [of s p i ci now] show ?thesis by auto
qed

lemma call_step:
  "game_inv s \<Longrightarrow> phase_rank (phase (after_call c s)) \<le> phase_rank (phase s) + 1"
  by (cases c) (simp_all add: join_step start_step play_step draw_phase pass_phase)

lemma finished_calls:
  assumes "phase s = Finished"
  shows "joinGame s p now = (Inl GAME_ALREADY_STARTED, s)"
    and "startGame s random now =
           (Inl (if length (players s) < 2 then NOT_ENOUGH_PLAYERS else GAME_ALREADY_STARTED), s)"
    and "playCard s p cid now = (Inl GAME_NOT_READY, s)"
    and "drawCard s p random now = (Inl GAME_NOT_READY, s)"
    and "passTurn s p now = (Inl GAME_NOT_READY, s)"
  using assms
  by (simp_all add: joinGame_def startGame_def playCard_def drawCard_def passTurn_def)

text \<open>Claim C8. From every reachable state, a call of \<^verbatim>\<open>joinGame\<close>, \<^verbatim>\<open>startGame\<close>,
  \<^verbatim>\<open>playCard\<close>, \<^verbatim>\<open>drawCard\<close> or \<^verbatim>\<open>passTurn\<close> that returns a failure leaves the whole
  state, timestamps included, exactly as it was before the call.\<close>

theorem failure_leaves_state:
  "reachable s \<Longrightarrow>
     (failed (joinGame s p now) \<longrightarrow> snd (joinGame s p now) = s) \<and>
     (failed (startGame s random now) \<longrightarrow> snd (startGame s random now) = s) \<and>
     (failed (playCard s p cid now) \<longrightarrow> snd (playCard s p cid now) = s) \<and>
     (failed (drawCard s p random now) \<longrightarrow> snd (drawCard s p random now) = s) \<and>
     (failed (passTurn s p now) \<longrightarrow> snd (passTurn s p now) = s) \<and>
     (call_failed c s \<longrightarrow> after_call c s = s)"
proof -
  assume r: "reachable s"
  note inv = reachable_inv [OF r]
  have "after_call c s = s" if "call_failed c s"
    using that inv by (cases c) (simp_all add: join_fail start_fail play_fail draw_fail pass_fail)
  with inv show ?thesis
    by (simp add: join_fail start_fail play_fail draw_fail pass_fail)
qed

theorem failure_leaves_state_witness:
  "reachable readyGame \<and>
   failed (joinGame readyGame ''carol'' 2000) \<and> snd (joinGame readyGame ''carol'' 2000) = readyGame \<and>
   failed (playCard readyGame ''alice'' ''card-0'' 2000) \<and>
   snd (playCard readyGame ''alice'' ''card-0'' 2000) = readyGame \<and>
   failed (drawCard readyGame ''alice'' (\<lambda>k. unit_zero) 2000) \<and>
   snd (drawCard readyGame ''alice'' (\<lambda>k. unit_zero) 2000) = readyGame \<and>
   failed (passTurn readyGame ''alice'' 2000) \<and> snd (passTurn readyGame ''alice'' 2000) = readyGame \<and>
   reachable startedGame \<and> failed (startGame startedGame (\<lambda>k. unit_zero) 2000) \<and>
   snd (startGame startedGame (\<lambda>k. unit_zero) 2000) = startedGame"
proof -
  have f: "failed (joinGame readyGame ''carol'' 2000)"
    "failed (playCard readyGame ''alice'' ''card-0'' 2000)"
    "failed (drawCard readyGame ''alice'' (\<lambda>k. unit_zero) 2000)"
    "failed (passTurn readyGame ''alice'' 2000)"
    by (simp_all add: readyGame_eq joinGame_def playCard_def drawCard_def passTurn_def
        findPlayerIndex_def)
  have sr: "reachable startedGame" using startedGame_in_play by (simp add: in_play_reachable)
  have "has_started startedGame" using startedGame_in_play by (simp add: in_play_reachable)
  then have g: "failed (startGame startedGame (\<lambda>k. unit_zero) 2000)"
    using start_when_started [of startedGame] by (simp add: has_started_def)
  from failure_leaves_state [OF readyGame_reachable, of "''carol''" 2000 "\<lambda>k. unit_zero" "''card-0''"]
    failure_leaves_state [OF readyGame_reachable, of "''alice''" 2000 "\<lambda>k. unit_zero" "''card-0''"]
    failure_leaves_state [OF sr, of "''alice''" 2000 "\<lambda>k. unit_zero" "''card-0''"]
    f g readyGame_reachable sr
  show ?thesis by simp
qed

section \<open>The shuffle on the store\<close>

lemma shuffle_at_fst: "fst (shuffle_at st a random) = fresh st"
  by (simp add: shuffle_at_def Let_def)

lemma shuffle_at_fresh: "fresh (snd (shuffle_at st a random)) = Suc (fresh st)"
  by (simp add: shuffle_at_def Let_def shuffle_loop_at_fresh)

lemma shuffle_prefix:
  assumes "\<And>k. k < length xs - 1 \<Longrightarrow> r1 k = r2 k"
  shows "shuffle xs r1 = shuffle xs r2"
  unfolding shuffle_def
  by (rule shuffle_loop_cong) (use assms in simp)

text \<open>Claim C9. \<^verbatim>\<open>shuffle\<close> works on a fresh copy: the array it returns is a new one, and
  the argument array, like every other array there was, holds after the call what it held
  before. The returned array is a permutation of the argument (the same elements with the
  same multiplicities, hence the same length). The result is determined by the argument
  and by the values the source returns on the calls made, one per position from the last
  down to the second: a second call of \<^verbatim>\<open>shuffle\<close> on the same argument, with a source
  that returns the same values again, returns a further new array with the same contents
  as the first result, and any two sources that agree on those calls give the same
  result.\<close>

theorem shuffle_copies_and_repeats:
  "a < fresh st \<Longrightarrow>
     (let c1 = fst (shuffle_at st a random); st1 = snd (shuffle_at st a random);
          c2 = fst (shuffle_at st1 a random); st2 = snd (shuffle_at st1 a random)
      in c1 \<noteq> a \<and> c2 \<noteq> a \<and> c2 \<noteq> c1 \<and>
         cells st1 a = cells st a \<and> cells st2 a = cells st a \<and>
         (\<forall>b. b \<noteq> c1 \<longrightarrow> cells st1 b = cells st b) \<and>
         cells st1 c1 = shuffle (cells st a) random \<and>
         mset (cells st1 c1) = mset (cells st a) \<and>
         length (cells st1 c1) = length (cells st a) \<and>
         cells st2 c2 = cells st1 c1 \<and> cells st2 c1 = cells st1 c1) \<and>
     (\<forall>random'. (\<forall>k. k < length (cells st a) - 1 \<longrightarrow> random' k = random k) \<longrightarrow>
        shuffle (cells st a) random' = shuffle (cells st a) random)"
proof
  assume a: "a < fresh st"
  show "let c1 = fst (shuffle_at st a random); st1 = snd (shuffle_at st a random);
          c2 = fst (shuffle_at st1 a random); st2 = snd (shuffle_at st1 a random)
      in c1 \<noteq> a \<and> c2 \<noteq> a \<and> c2 \<noteq> c1 \<and>
         cells st1 a = cells st a \<and> cells st2 a = cells st a \<and>
         (\<forall>b. b \<noteq> c1 \<longrightarrow> cells st1 b = cells st b) \<and>
         cells st1 c1 = shuffle (cells st a) random \<and>
         mset (cells st1 c1) = mset (cells st a) \<and>
         length (cells st1 c1) = length (cells st a) \<and>
         cells st2 c2 = cells st1 c1 \<and> cells st2 c1 = cells st1 c1"
    using a
    by (simp add: Let_def shuffle_at_fst shuffle_at_fresh shuffle_at_cells)
  show "\<forall>random'. (\<forall>k. k < length (cells st a) - 1 \<longrightarrow> random' k = random k) \<longrightarrow>
        shuffle (cells st a) random' = shuffle (cells st a) random"
    by (intro allI impI shuffle_prefix) simp
qed

lemma shuffle_demo: "shuffle [1, 2, 3, 4, 5 :: nat] (\<lambda>k. unit_zero) = [2, 3, 4, 5, 1]"
  by (simp add: shuffle_def numeral_eq_Suc)

theorem shuffle_copies_and_repeats_witness:
  "(0 :: nat) < fresh demoStore \<and> cells demoStore 0 = [1, 2, 3, 4, 5] \<and>
   fst (shuffle_at demoStore 0 (\<lambda>k. unit_zero)) = 1 \<and>
   cells (snd (shuffle_at demoStore 0 (\<lambda>k. unit_zero))) 1 = [2, 3, 4, 5, 1] \<and>
   cells (snd (shuffle_at demoStore 0 (\<lambda>k. unit_zero))) 0 = [1, 2, 3, 4, 5] \<and>
   cells (snd (shuffle_at (snd (shuffle_at demoStore 0 (\<lambda>k. unit_zero))) 0 (\<lambda>k. unit_zero))) 2
     = [2, 3, 4, 5, 1]"
proof -
  have h: "0 < fresh demoStore" "cells demoStore 0 = [1, 2, 3, 4, 5]" "fresh demoStore = 1"
    by (simp_all add: demoStore_def)
  have f: "fst (shuffle_at demoStore 0 (\<lambda>k. unit_zero)) = 1"
    "fst (shuffle_at (snd (shuffle_at demoStore 0 (\<lambda>k. unit_zero))) 0 (\<lambda>k. unit_zero)) = 2"
    by (simp_all add: shuffle_at_fst shuffle_at_fresh h)
  let ?st1 = "snd (shuffle_at demoStore 0 (\<lambda>k. unit_zero))"
  let ?st2 = "snd (shuffle_at ?st1 0 (\<lambda>k. unit_zero))"
  note t = shuffle_copies_and_repeats [OF h(1), of "\<lambda>k. unit_zero", unfolded Let_def f]
  from t have "cells ?st1 1 = shuffle (cells demoStore 0) (\<lambda>k. unit_zero)"
    and "cells ?st1 0 = cells demoStore 0" and "cells ?st2 2 = cells ?st1 1"
    by blast+
  then have "cells ?st1 1 = [2, 3, 4, 5, 1]" "cells ?st1 0 = [1, 2, 3, 4, 5]"
    "cells ?st2 2 = [2, 3, 4, 5, 1]"
    by (simp_all only: h(2) shuffle_demo)
  with h(1,2) f(1) show ?thesis by (intro conjI)
qed

section \<open>A whole game from the started state\<close>

lemma shuffle_loop_zero:
  "m < length xs \<Longrightarrow>
   shuffle_loop m (\<lambda>k. unit_zero) k xs = rotate1 (take (Suc m) xs) @ drop (Suc m) xs"
proof (induction m arbitrary: k xs)
  case 0
  then show ?case by (cases xs) simp_all
next
  case (Suc m)
  then obtain x ys where xs: "xs = x # ys" and m: "m < length ys" by (cases xs) auto
  let ?y = "ys ! m"
  have ys: "ys = take m ys @ ?y # drop (Suc m) ys" using m by (rule id_take_nth_drop)
  have upd: "xs[Suc m := xs ! 0, 0 := xs ! Suc m] = ?y # take m ys @ x # drop (Suc m) ys"
    using m by (simp add: xs upd_conv_take_nth_drop)
  have l: "m < length (?y # take m ys @ x # drop (Suc m) ys)" using m by simp
  have "shuffle_loop (Suc m) (\<lambda>k. unit_zero) k xs =
        shuffle_loop m (\<lambda>k. unit_zero) (k + 1) (?y # take m ys @ x # drop (Suc m) ys)"
    by (simp add: Let_def upd del: list_update.simps)
  also have "\<dots> = rotate1 (take (Suc m) (?y # take m ys @ x # drop (Suc m) ys)) @
                     drop (Suc m) (?y # take m ys @ x # drop (Suc m) ys)"
    using l by (rule Suc.IH)
  also have "\<dots> = take m ys @ [?y] @ x # drop (Suc m) ys"
    using m by simp
  also have "\<dots> = rotate1 (take (Suc (Suc m)) xs) @ drop (Suc (Suc m)) xs"
    using m by (simp add: xs take_Suc_conv_app_nth)
  finally show ?case .
qed

lemma shuffle_zero: "shuffle xs (\<lambda>k. unit_zero) = rotate1 xs"
proof (cases xs)
  case Nil
  then show ?thesis by (simp add: shuffle_def)
next
  case (Cons a list)
  then have "length xs - 1 < length xs" by simp
  from shuffle_loop_zero [OF this, of 0] Cons show ?thesis by (simp add: shuffle_def)
qed

lemma digit_chars:
  "char_of (48::nat) = CHR ''0''" "char_of (49::nat) = CHR ''1''" "char_of (50::nat) = CHR ''2''"
  "char_of (51::nat) = CHR ''3''" "char_of (52::nat) = CHR ''4''" "char_of (53::nat) = CHR ''5''"
  "char_of (54::nat) = CHR ''6''" "char_of (55::nat) = CHR ''7''" "char_of (56::nat) = CHR ''8''"
  "char_of (57::nat) = CHR ''9''"
  by code_simp+

lemma deck_top_cards:
  "createDeck ! 0 = \<lparr>card_id = ''card-0'', color = Red, rank = 0\<rparr> \<and>
   createDeck ! 62 = \<lparr>card_id = ''card-62'', color = Yellow, rank = 3\<rparr> \<and>
   createDeck ! 63 = \<lparr>card_id = ''card-63'', color = Yellow, rank = 3\<rparr> \<and>
   createDeck ! 64 = \<lparr>card_id = ''card-64'', color = Yellow, rank = 4\<rparr> \<and>
   createDeck ! 65 = \<lparr>card_id = ''card-65'', color = Yellow, rank = 4\<rparr> \<and>
   createDeck ! 66 = \<lparr>card_id = ''card-66'', color = Yellow, rank = 5\<rparr> \<and>
   createDeck ! 67 = \<lparr>card_id = ''card-67'', color = Yellow, rank = 5\<rparr> \<and>
   createDeck ! 68 = \<lparr>card_id = ''card-68'', color = Yellow, rank = 6\<rparr> \<and>
   createDeck ! 69 = \<lparr>card_id = ''card-69'', color = Yellow, rank = 6\<rparr> \<and>
   createDeck ! 70 = \<lparr>card_id = ''card-70'', color = Yellow, rank = 7\<rparr> \<and>
   createDeck ! 71 = \<lparr>card_id = ''card-71'', color = Yellow, rank = 7\<rparr> \<and>
   createDeck ! 72 = \<lparr>card_id = ''card-72'', color = Yellow, rank = 8\<rparr> \<and>
   createDeck ! 73 = \<lparr>card_id = ''card-73'', color = Yellow, rank = 8\<rparr> \<and>
   createDeck ! 74 = \<lparr>card_id = ''card-74'', color = Yellow, rank = 9\<rparr> \<and>
   createDeck ! 75 = \<lparr>card_id = ''card-75'', color = Yellow, rank = 9\<rparr>"
  by (simp add: createDeck_def UNO_COLORS_def UNO_VALUES_def make_card_def digit_chars)

lemma startedGame_eq:
  "startedGame =
     \<lparr>roomId = ''room-1'', phase = InProgress,
      players =
        [\<lparr>player_id = ''alice'',
          hand = [\<lparr>card_id = ''card-0'', color = Red, rank = 0\<rparr>,
                  \<lparr>card_id = ''card-74'', color = Yellow, rank = 9\<rparr>,
                  \<lparr>card_id = ''card-72'', color = Yellow, rank = 8\<rparr>,
                  \<lparr>card_id = ''card-70'', color = Yellow, rank = 7\<rparr>,
                  \<lparr>card_id = ''card-68'', color = Yellow, rank = 6\<rparr>,
                  \<lparr>card_id = ''card-66'', color = Yellow, rank = 5\<rparr>,
                  \<lparr>card_id = ''card-64'', color = Yellow, rank = 4\<rparr>]\<rparr>,
         \<lparr>player_id = ''bob'',
          hand = [\<lparr>card_id = ''card-75'', color = Yellow, rank = 9\<rparr>,
                  \<lparr>card_id = ''card-73'', color = Yellow, rank = 8\<rparr>,
                  \<lparr>card_id = ''card-71'', color = Yellow, rank = 7\<rparr>,
                  \<lparr>card_id = ''card-69'', color = Yellow, rank = 6\<rparr>,
                  \<lparr>card_id = ''card-67'', color = Yellow, rank = 5\<rparr>,
                  \<lparr>card_id = ''card-65'', color = Yellow, rank = 4\<rparr>,
                  \<lparr>card_id = ''card-63'', color = Yellow, rank = 3\<rparr>]\<rparr>],
      playerOrder = [''alice'', ''bob''],
      drawPile = take 61 (rotate1 createDeck),
      discardPile = [\<lparr>card_id = ''card-62'', color = Yellow, rank = 3\<rparr>],
      currentColor = Some Yellow, currentValue = Some 3, winnerId = None,
      turn = Some \<lparr>activePlayerId = Some ''alice'', hasDrawnCard = False\<rparr>,
      createdAt = 1000, updatedAt = 1002\<rparr>"
proof -
  have h: "length (players readyGame) = 2" "phase readyGame \<noteq> InProgress"
    "phase readyGame \<noteq> Finished"
    by (simp_all add: readyGame_eq)
  have n: "rotate1 createDeck ! k = createDeck ! (Suc k mod 76)" if "k < 76" for k
    using that by (simp add: nth_rotate1 length_createDeck)
  show ?thesis
    unfolding startedGame_def
      startGame_two [OF reachable_inv [OF readyGame_reachable] h, of "\<lambda>k. unit_zero" 1002]
    by (simp add: readyGame_eq shuffle_zero n deck_top_cards upt_conv_Cons)
qed

lemma reachable_foldl: "reachable s \<Longrightarrow> reachable (foldl (\<lambda>s c. after_call c s) s cs)"
  by (induction cs arbitrary: s) (simp_all add: reachable.called)

lemma midGame_reachable: "reachable midGame"
  unfolding midGame_def using startedGame_reachable by (rule reachable_foldl)

lemma drawnGame_reachable: "reachable drawnGame"
proof -
  have "reachable (after_call (Draw ''alice'' (\<lambda>k. unit_zero) 1015) midGame)"
    using midGame_reachable by (rule reachable.called)
  then show ?thesis by (simp add: drawnGame_def)
qed

lemma finishedGame_reachable: "reachable finishedGame"
proof -
  have "reachable (after_call (Play ''bob'' ''card-63'' 1017)
          (after_call (Play ''alice'' ''card-61'' 1016) drawnGame))"
    using drawnGame_reachable by (intro reachable.called)
  then show ?thesis by (simp add: finishedGame_def)
qed

lemmas play_eval = playCard_def ensureActivePlayer_def findPlayerIndex_def isCardPlayable_def
  splice1_def refreshTimestamp_def advanceTurn_def getNextPlayerId_def Let_def

lemma midGame_eq:
  "midGame =
     \<lparr>roomId = ''room-1'', phase = InProgress,
      players =
        [\<lparr>player_id = ''alice'',
          hand = [\<lparr>card_id = ''card-0'', color = Red, rank = 0\<rparr>]\<rparr>,
         \<lparr>player_id = ''bob'',
          hand = [\<lparr>card_id = ''card-63'', color = Yellow, rank = 3\<rparr>]\<rparr>],
      playerOrder = [''alice'', ''bob''],
      drawPile = take 61 (rotate1 createDeck),
      discardPile = [\<lparr>card_id = ''card-62'', color = Yellow, rank = 3\<rparr>,
                     \<lparr>card_id = ''card-74'', color = Yellow, rank = 9\<rparr>,
                     \<lparr>card_id = ''card-75'', color = Yellow, rank = 9\<rparr>,
                     \<lparr>card_id = ''card-72'', color = Yellow, rank = 8\<rparr>,
                     \<lparr>card_id = ''card-73'', color = Yellow, rank = 8\<rparr>,
                     \<lparr>card_id = ''card-70'', color = Yellow, rank = 7\<rparr>,
                     \<lparr>card_id = ''card-71'', color = Yellow, rank = 7\<rparr>,
                     \<lparr>card_id = ''card-68'', color = Yellow, rank = 6\<rparr>,
                     \<lparr>card_id = ''card-69'', color = Yellow, rank = 6\<rparr>,
                     \<lparr>card_id = ''card-66'', color = Yellow, rank = 5\<rparr>,
                     \<lparr>card_id = ''card-67'', color = Yellow, rank = 5\<rparr>,
                     \<lparr>card_id = ''card-64'', color = Yellow, rank = 4\<rparr>,
                     \<lparr>card_id = ''card-65'', color = Yellow, rank = 4\<rparr>],
      currentColor = Some Yellow, currentValue = Some 4, winnerId = None,
      turn = Some \<lparr>activePlayerId = Some ''alice'', hasDrawnCard = False\<rparr>,
      createdAt = 1000, updatedAt = 1014\<rparr>"
  by (simp add: midGame_def openingPlays_def startedGame_eq play_eval)

lemma top_of_draw_pile:
  "last (take 61 (rotate1 createDeck)) = \<lparr>card_id = ''card-61'', color = Yellow, rank = 2\<rparr>"
  "butlast (take 61 (rotate1 createDeck)) = take 60 (rotate1 createDeck)"
  "take 61 (rotate1 createDeck) \<noteq> []"
proof -
  have l: "length (take 61 (rotate1 createDeck)) = 61" by (simp add: length_createDeck)
  then show ne: "take 61 (rotate1 createDeck) \<noteq> []" by (metis length_0_conv zero_neq_numeral)
  have "createDeck ! 61 = \<lparr>card_id = ''card-61'', color = Yellow, rank = 2\<rparr>"
    by (simp add: createDeck_def UNO_COLORS_def UNO_VALUES_def make_card_def digit_chars)
  then show "last (take 61 (rotate1 createDeck)) = \<lparr>card_id = ''card-61'', color = Yellow, rank = 2\<rparr>"
    using ne by (simp add: last_conv_nth length_createDeck nth_rotate1)
  show "butlast (take 61 (rotate1 createDeck)) = take 60 (rotate1 createDeck)"
    by (simp add: butlast_take length_createDeck)
qed

lemma createDeck_nonempty: "createDeck \<noteq> []"
  using length_createDeck by (metis length_0_conv zero_neq_numeral)

lemma drawnGame_eq:
  "drawCard midGame ''alice'' (\<lambda>k. unit_zero) 1015 =
     (Inr (\<lparr>card_id = ''card-61'', color = Yellow, rank = 2\<rparr>, True),
      \<lparr>roomId = ''room-1'', phase = InProgress,
      players =
        [\<lparr>player_id = ''alice'',
          hand = [\<lparr>card_id = ''card-0'', color = Red, rank = 0\<rparr>,
                  \<lparr>card_id = ''card-61'', color = Yellow, rank = 2\<rparr>]\<rparr>,
         \<lparr>player_id = ''bob'',
          hand = [\<lparr>card_id = ''card-63'', color = Yellow, rank = 3\<rparr>]\<rparr>],
      playerOrder = [''alice'', ''bob''],
      drawPile = take 60 (rotate1 createDeck),
      discardPile = [\<lparr>card_id = ''card-62'', color = Yellow, rank = 3\<rparr>,
                     \<lparr>card_id = ''card-74'', color = Yellow, rank = 9\<rparr>,
                     \<lparr>card_id = ''card-75'', color = Yellow, rank = 9\<rparr>,
                     \<lparr>card_id = ''card-72'', color = Yellow, rank = 8\<rparr>,
                     \<lparr>card_id = ''card-73'', color = Yellow, rank = 8\<rparr>,
                     \<lparr>card_id = ''card-70'', color = Yellow, rank = 7\<rparr>,
                     \<lparr>card_id = ''card-71'', color = Yellow, rank = 7\<rparr>,
                     \<lparr>card_id = ''card-68'', color = Yellow, rank = 6\<rparr>,
                     \<lparr>card_id = ''card-69'', color = Yellow, rank = 6\<rparr>,
                     \<lparr>card_id = ''card-66'', color = Yellow, rank = 5\<rparr>,
                     \<lparr>card_id = ''card-67'', color = Yellow, rank = 5\<rparr>,
                     \<lparr>card_id = ''card-64'', color = Yellow, rank = 4\<rparr>,
                     \<lparr>card_id = ''card-65'', color = Yellow, rank = 4\<rparr>],
      currentColor = Some Yellow, currentValue = Some 4, winnerId = None,
      turn = Some \<lparr>activePlayerId = Some ''alice'', hasDrawnCard = True\<rparr>,
      createdAt = 1000, updatedAt = 1015\<rparr>)"
  by (simp add: midGame_eq drawCard_def ensureActivePlayer_def listPlayableCards_def
      findPlayerIndex_def isCardPlayable_def drawTopCard_def pushToHand_def refreshTimestamp_def
      Let_def top_of_draw_pile length_createDeck createDeck_nonempty)

lemma finishedGame_eq:
  "finishedGame =
     \<lparr>roomId = ''room-1'', phase = Finished,
      players =
        [\<lparr>player_id = ''alice'',
          hand = [\<lparr>card_id = ''card-0'', color = Red, rank = 0\<rparr>]\<rparr>,
         \<lparr>player_id = ''bob'',
          hand = []\<rparr>],
      playerOrder = [''alice'', ''bob''],
      drawPile = take 60 (rotate1 createDeck),
      discardPile = [\<lparr>card_id = ''card-62'', color = Yellow, rank = 3\<rparr>,
                     \<lparr>card_id = ''card-74'', color = Yellow, rank = 9\<rparr>,
                     \<lparr>card_id = ''card-75'', color = Yellow, rank = 9\<rparr>,
                     \<lparr>card_id = ''card-72'', color = Yellow, rank = 8\<rparr>,
                     \<lparr>card_id = ''card-73'', color = Yellow, rank = 8\<rparr>,
                     \<lparr>card_id = ''card-70'', color = Yellow, rank = 7\<rparr>,
                     \<lparr>card_id = ''card-71'', color = Yellow, rank = 7\<rparr>,
                     \<lparr>card_id = ''card-68'', color = Yellow, rank = 6\<rparr>,
                     \<lparr>card_id = ''card-69'', color = Yellow, rank = 6\<rparr>,
                     \<lparr>card_id = ''card-66'', color = Yellow, rank = 5\<rparr>,
                     \<lparr>card_id = ''card-67'', color = Yellow, rank = 5\<rparr>,
                     \<lparr>card_id = ''card-64'', color = Yellow, rank = 4\<rparr>,
                     \<lparr>card_id = ''card-65'', color = Yellow, rank = 4\<rparr>,
                     \<lparr>card_id = ''card-61'', color = Yellow, rank = 2\<rparr>,
                     \<lparr>card_id = ''card-63'', color = Yellow, rank = 3\<rparr>],
      currentColor = Some Yellow, currentValue = Some 3, winnerId = Some ''bob'',
      turn = None,
      createdAt = 1000, updatedAt = 1017\<rparr>"
  using drawnGame_eq by (simp add: finishedGame_def drawnGame_def play_eval)

section \<open>playCard and drawCard on the reachable states\<close>

lemma reachable_hand_ids:
  assumes "reachable s" and "findPlayerIndex s p = Some i"
  shows "distinct (map card_id (hand (players s ! i)))"
proof -
  from assms(2) have "i < length (players s)" by (simp add: findPlayerIndex_Some)
  then have "players s ! i \<in> set (players s)" by simp
  with reachable_distinct_ids [OF assms(1)] show ?thesis by (rule distinct_hand)
qed

lemma reachable_active_seated:
  assumes "reachable s" and "phase s = InProgress" and "is_active s p"
  shows "\<exists>i k. findPlayerIndex s p = Some i \<and>
           findIndex (\<lambda>q. q = p) (playerOrder s) = Some k"
proof -
  from reachable_inv [OF assms(1)] assms(2) have act: "active_seated s"
    and ord: "playerOrder s = map player_id (players s)" by (simp_all add: game_inv_def)
  from act assms(3) have pin: "p \<in> set (playerOrder s)"
    by (auto simp: active_seated_def is_active_def)
  then have "p \<in> set (map player_id (players s))" using ord by simp
  then obtain i where i: "findPlayerIndex s p = Some i" using findPlayerIndex_seated by blast
  from pin obtain k where "findIndex (\<lambda>q. q = p) (playerOrder s) = Some k"
    using findIndex_None [of "\<lambda>q. q = p" "playerOrder s"]
    by (cases "findIndex (\<lambda>q. q = p) (playerOrder s)") auto
  with i show ?thesis by blast
qed

text \<open>Claim C3. On the reachable states \<^verbatim>\<open>playCard\<close> checks, in this order: the phase is
  in-progress (else \<^verbatim>\<open>GAME_NOT_READY\<close>); the caller is the active player (else
  \<^verbatim>\<open>NOT_PLAYER_TURN\<close>); a card with the given id is in the caller's hand (else
  \<^verbatim>\<open>CARD_NOT_FOUND\<close>); that card has the current color or the current value (else
  \<^verbatim>\<open>CARD_NOT_PLAYABLE\<close>). An active caller always has a seat there, so the seat check of
  the code never fires and \<^verbatim>\<open>PLAYER_ALREADY_JOINED\<close> is never the answer. Every failure
  leaves the state as it was. On success the card leaves the hand and becomes the last
  card of the discard pile, the current color and value become the card's and the
  timestamp is refreshed; if the hand is then empty the phase is finished, the caller is
  the winner and there is no turn state; otherwise the phase stays, and the turn goes to
  the player after the caller in the turn order, wrapping at its end, with the drawn flag
  off.\<close>

theorem playCard_checks_in_order:
  "reachable s \<Longrightarrow>
   (phase s \<noteq> InProgress \<longrightarrow> playCard s p cid now = (Inl GAME_NOT_READY, s)) \<and>
   (phase s = InProgress \<and> \<not> is_active s p \<longrightarrow>
      playCard s p cid now = (Inl NOT_PLAYER_TURN, s)) \<and>
   (phase s = InProgress \<and> is_active s p \<longrightarrow>
      (\<exists>i. findPlayerIndex s p = Some i \<and> i < length (players s) \<and>
         player_id (players s ! i) = p \<and>
         (cid \<notin> card_id ` set (hand (players s ! i)) \<longrightarrow>
            playCard s p cid now = (Inl CARD_NOT_FOUND, s)) \<and>
         (\<forall>ci. ci < length (hand (players s ! i)) \<and> card_id (hand (players s ! i) ! ci) = cid \<longrightarrow>
            (let h = hand (players s ! i); c = h ! ci; h' = take ci h @ drop (Suc ci) h;
                 s' = snd (playCard s p cid now)
             in (\<not> (Some (color c) = currentColor s \<or> Some (rank c) = currentValue s) \<longrightarrow>
                   playCard s p cid now = (Inl CARD_NOT_PLAYABLE, s)) \<and>
                (Some (color c) = currentColor s \<or> Some (rank c) = currentValue s \<longrightarrow>
                   fst (playCard s p cid now) = Inr () \<and>
                   players s' = (players s)[i := (players s ! i)\<lparr>hand := h'\<rparr>] \<and>
                   discardPile s' = discardPile s @ [c] \<and> drawPile s' = drawPile s \<and>
                   playerOrder s' = playerOrder s \<and>
                   currentColor s' = Some (color c) \<and> currentValue s' = Some (rank c) \<and>
                   updatedAt s' = now \<and>
                   (h' = [] \<longrightarrow>
                      phase s' = Finished \<and> winnerId s' = Some p \<and> turn s' = None) \<and>
                   (h' \<noteq> [] \<longrightarrow>
                      phase s' = InProgress \<and> winnerId s' = winnerId s \<and>
                      (\<exists>k. k < length (playerOrder s) \<and> playerOrder s ! k = p \<and>
                         turn s' =
                           Some \<lparr>activePlayerId =
                                   Some (playerOrder s ! ((k + 1) mod length (playerOrder s))),
                                 hasDrawnCard = False\<rparr>))))))) \<and>
   fst (playCard s p cid now) \<noteq> Inl PLAYER_ALREADY_JOINED"
proof (intro conjI impI)
  assume r: "reachable s"
  show "playCard s p cid now = (Inl GAME_NOT_READY, s)" if "phase s \<noteq> InProgress"
    using that by (rule playCard_errs(1))
  show "playCard s p cid now = (Inl NOT_PLAYER_TURN, s)" if "phase s = InProgress \<and> \<not> is_active s p"
    using that by (simp add: playCard_errs(2))
  show "\<exists>i. findPlayerIndex s p = Some i \<and> i < length (players s) \<and>
         player_id (players s ! i) = p \<and>
         (cid \<notin> card_id ` set (hand (players s ! i)) \<longrightarrow>
            playCard s p cid now = (Inl CARD_NOT_FOUND, s)) \<and>
         (\<forall>ci. ci < length (hand (players s ! i)) \<and> card_id (hand (players s ! i) ! ci) = cid \<longrightarrow>
            (let h = hand (players s ! i); c = h ! ci; h' = take ci h @ drop (Suc ci) h;
                 s' = snd (playCard s p cid now)
             in (\<not> (Some (color c) = currentColor s \<or> Some (rank c) = currentValue s) \<longrightarrow>
                   playCard s p cid now = (Inl CARD_NOT_PLAYABLE, s)) \<and>
                (Some (color c) = currentColor s \<or> Some (rank c) = currentValue s \<longrightarrow>
                   fst (playCard s p cid now) = Inr () \<and>
                   players s' = (players s)[i := (players s ! i)\<lparr>hand := h'\<rparr>] \<and>
                   discardPile s' = discardPile s @ [c] \<and> drawPile s' = drawPile s \<and>
                   playerOrder s' = playerOrder s \<and>
                   currentColor s' = Some (color c) \<and> currentValue s' = Some (rank c) \<and>
                   updatedAt s' = now \<and>
                   (h' = [] \<longrightarrow>
                      phase s' = Finished \<and> winnerId s' = Some p \<and> turn s' = None) \<and>
                   (h' \<noteq> [] \<longrightarrow>
                      phase s' = InProgress \<and> winnerId s' = winnerId s \<and>
                      (\<exists>k. k < length (playerOrder s) \<and> playerOrder s ! k = p \<and>
                         turn s' =
                           Some \<lparr>activePlayerId =
                                   Some (playerOrder s ! ((k + 1) mod length (playerOrder s))),
                                 hasDrawnCard = False\<rparr>)))))"
    if a: "phase s = InProgress \<and> is_active s p"
  proof -
    from a have ph: "phase s = InProgress" and act: "is_active s p" by simp_all
    from reachable_active_seated [OF r ph act] obtain i k where
      i: "findPlayerIndex s p = Some i"
      and k: "findIndex (\<lambda>q. q = p) (playerOrder s) = Some k" by blast
    note fi = findPlayerIndex_Some [OF i]
    note fk = findIndex_Some [OF k]
    note nx = getNext_wraps [OF k]
    let ?h = "hand (players s ! i)"
    have nf: "playCard s p cid now = (Inl CARD_NOT_FOUND, s)" if "cid \<notin> card_id ` set ?h"
      using playCard_cases [of s p cid now i 0] ph act i that by simp
    have found: "let h = ?h; c = h ! ci; h' = take ci h @ drop (Suc ci) h;
                 s' = snd (playCard s p cid now)
             in (\<not> (Some (color c) = currentColor s \<or> Some (rank c) = currentValue s) \<longrightarrow>
                   playCard s p cid now = (Inl CARD_NOT_PLAYABLE, s)) \<and>
                (Some (color c) = currentColor s \<or> Some (rank c) = currentValue s \<longrightarrow>
                   fst (playCard s p cid now) = Inr () \<and>
                   players s' = (players s)[i := (players s ! i)\<lparr>hand := h'\<rparr>] \<and>
                   discardPile s' = discardPile s @ [c] \<and> drawPile s' = drawPile s \<and>
                   playerOrder s' = playerOrder s \<and>
                   currentColor s' = Some (color c) \<and> currentValue s' = Some (rank c) \<and>
                   updatedAt s' = now \<and>
                   (h' = [] \<longrightarrow>
                      phase s' = Finished \<and> winnerId s' = Some p \<and> turn s' = None) \<and>
                   (h' \<noteq> [] \<longrightarrow>
                      phase s' = InProgress \<and> winnerId s' = winnerId s \<and>
                      (\<exists>k. k < length (playerOrder s) \<and> playerOrder s ! k = p \<and>
                         turn s' =
                           Some \<lparr>activePlayerId =
                                   Some (playerOrder s ! ((k + 1) mod length (playerOrder s))),
                                 hasDrawnCard = False\<rparr>)))"
      if c: "ci < length ?h \<and> card_id (?h ! ci) = cid" for ci
    proof -
      from c have "findIndex (\<lambda>x. card_id x = card_id (?h ! ci)) ?h = Some ci"
        using findIndex_distinct_map [OF reachable_hand_ids [OF r i], of ci] by simp
      with c have ci: "findIndex (\<lambda>x. card_id x = cid) ?h = Some ci" by simp
      have kk: "k < length (playerOrder s) \<and> playerOrder s ! k = p" using fk by simp
      from playCard_cases [of s p cid now i ci] ph act i ci
      have "let h = ?h; c = h ! ci; h' = take ci h @ drop (Suc ci) h;
                s' = snd (playCard s p cid now)
            in (\<not> isCardPlayable c (currentColor s) (currentValue s) \<longrightarrow>
                  playCard s p cid now = (Inl CARD_NOT_PLAYABLE, s)) \<and>
               (isCardPlayable c (currentColor s) (currentValue s) \<longrightarrow>
                  fst (playCard s p cid now) = Inr () \<and>
                  players s' = (players s)[i := (players s ! i)\<lparr>hand := h'\<rparr>] \<and>
                  discardPile s' = discardPile s @ [c] \<and> drawPile s' = drawPile s \<and>
                  playerOrder s' = playerOrder s \<and>
                  currentColor s' = Some (color c) \<and> currentValue s' = Some (rank c) \<and>
                  updatedAt s' = now \<and>
                  (h' = [] \<longrightarrow> phase s' = Finished \<and> winnerId s' = Some p \<and> turn s' = None) \<and>
                  (h' \<noteq> [] \<longrightarrow>
                     phase s' = InProgress \<and> winnerId s' = winnerId s \<and>
                     turn s' = Some \<lparr>activePlayerId = getNextPlayerId s (Some p),
                                     hasDrawnCard = False\<rparr>))"
        by (simp add: Let_def)
      then show ?thesis
        unfolding Let_def isCardPlayable_def nx using kk by blast
    qed
    from i fi nf found show ?thesis by blast
  qed
  show "fst (playCard s p cid now) \<noteq> Inl PLAYER_ALREADY_JOINED"
  proof (cases "phase s = InProgress \<and> is_active s p")
    case False
    show ?thesis
    proof (cases "phase s = InProgress")
      case True
      with False have "\<not> is_active s p" by simp
      with playCard_errs(2) [OF True this, of cid now] show ?thesis by simp
    next
      case False
      with playCard_errs(1) [OF this, of p cid now] show ?thesis by simp
    qed
  next
    case True
    with reachable_active_seated [OF r] obtain i where i: "findPlayerIndex s p = Some i" by blast
    show ?thesis
    proof (cases "findIndex (\<lambda>c. card_id c = cid) (hand (players s ! i))")
      case None
      with playCard_errs(4) [of s p i cid now] True i show ?thesis by simp
    next
      case (Some ci)
      show ?thesis
      proof (cases "isCardPlayable (hand (players s ! i) ! ci) (currentColor s) (currentValue s)")
        case False
        with playCard_errs(5) [of s p i cid ci now] True i Some show ?thesis by simp
      next
        case pl: True
        from True obtain t where "turn s = Some t" "activePlayerId t = Some p"
          by (auto simp: is_active_def)
        with playCard_ok [of s t p i cid ci now] True i Some pl show ?thesis by simp
      qed
    qed
  qed
qed

lemma startedGame_facts:
  "phase startedGame = InProgress" "is_active startedGame ''alice''"
  "\<not> is_active startedGame ''bob''"
  "turn startedGame = Some \<lparr>activePlayerId = Some ''alice'', hasDrawnCard = False\<rparr>"
  "findPlayerIndex startedGame ''alice'' = Some 0"
  "hand (players startedGame ! 0) =
     [\<lparr>card_id = ''card-0'', color = Red, rank = 0\<rparr>,
      \<lparr>card_id = ''card-74'', color = Yellow, rank = 9\<rparr>,
      \<lparr>card_id = ''card-72'', color = Yellow, rank = 8\<rparr>,
      \<lparr>card_id = ''card-70'', color = Yellow, rank = 7\<rparr>,
      \<lparr>card_id = ''card-68'', color = Yellow, rank = 6\<rparr>,
      \<lparr>card_id = ''card-66'', color = Yellow, rank = 5\<rparr>,
      \<lparr>card_id = ''card-64'', color = Yellow, rank = 4\<rparr>]"
  "currentColor startedGame = Some Yellow" "currentValue startedGame = Some 3"
  "playerOrder startedGame = [''alice'', ''bob'']"
  "discardPile startedGame = [\<lparr>card_id = ''card-62'', color = Yellow, rank = 3\<rparr>]"
  by (simp_all add: startedGame_eq is_active_def findPlayerIndex_def)

theorem playCard_checks_in_order_witness:
  "reachable startedGame \<and> phase startedGame = InProgress \<and> is_active startedGame ''alice'' \<and>
   fst (playCard startedGame ''alice'' ''card-74'' 1003) = Inr () \<and>
   discardPile (snd (playCard startedGame ''alice'' ''card-74'' 1003)) =
     [\<lparr>card_id = ''card-62'', color = Yellow, rank = 3\<rparr>,
      \<lparr>card_id = ''card-74'', color = Yellow, rank = 9\<rparr>] \<and>
   currentValue (snd (playCard startedGame ''alice'' ''card-74'' 1003)) = Some 9 \<and>
   turn (snd (playCard startedGame ''alice'' ''card-74'' 1003)) =
     Some \<lparr>activePlayerId = Some ''bob'', hasDrawnCard = False\<rparr> \<and>
   playCard startedGame ''alice'' ''card-0'' 1003 = (Inl CARD_NOT_PLAYABLE, startedGame) \<and>
   playCard startedGame ''alice'' ''card-1'' 1003 = (Inl CARD_NOT_FOUND, startedGame) \<and>
   playCard startedGame ''bob'' ''card-75'' 1003 = (Inl NOT_PLAYER_TURN, startedGame) \<and>
   playCard readyGame ''alice'' ''card-0'' 1003 = (Inl GAME_NOT_READY, readyGame)"
proof -
  note f = startedGame_facts
  note T = playCard_checks_in_order [OF startedGame_reachable]
  have ia: "phase startedGame = InProgress \<and> is_active startedGame ''alice''" using f by simp
  let ?h = "hand (players startedGame ! 0)"
  \<comment> \<open>the successful play of card-74, at position 1 of the hand\<close>
  from T [of "''alice''" "''card-74''" 1003, THEN conjunct2, THEN conjunct2, THEN conjunct1,
      rule_format, OF ia]
  obtain i where i: "findPlayerIndex startedGame ''alice'' = Some i"
    and a: "\<forall>ci. ci < length (hand (players startedGame ! i)) \<and>
              card_id (hand (players startedGame ! i) ! ci) = ''card-74'' \<longrightarrow>
            (let h = hand (players startedGame ! i); c = h ! ci;
                 h' = take ci h @ drop (Suc ci) h;
                 s' = snd (playCard startedGame ''alice'' ''card-74'' 1003)
             in (\<not> (Some (color c) = currentColor startedGame \<or>
                     Some (rank c) = currentValue startedGame) \<longrightarrow>
                   playCard startedGame ''alice'' ''card-74'' 1003 =
                     (Inl CARD_NOT_PLAYABLE, startedGame)) \<and>
                (Some (color c) = currentColor startedGame \<or>
                 Some (rank c) = currentValue startedGame \<longrightarrow>
                   fst (playCard startedGame ''alice'' ''card-74'' 1003) = Inr () \<and>
                   players s' = (players startedGame)[i := (players startedGame ! i)\<lparr>hand := h'\<rparr>] \<and>
                   discardPile s' = discardPile startedGame @ [c] \<and>
                   drawPile s' = drawPile startedGame \<and>
                   playerOrder s' = playerOrder startedGame \<and>
                   currentColor s' = Some (color c) \<and> currentValue s' = Some (rank c) \<and>
                   updatedAt s' = 1003 \<and>
                   (h' = [] \<longrightarrow>
                      phase s' = Finished \<and> winnerId s' = Some ''alice'' \<and> turn s' = None) \<and>
                   (h' \<noteq> [] \<longrightarrow>
                      phase s' = InProgress \<and> winnerId s' = winnerId startedGame \<and>
                      (\<exists>k. k < length (playerOrder startedGame) \<and>
                         playerOrder startedGame ! k = ''alice'' \<and>
                         turn s' =
                           Some \<lparr>activePlayerId =
                                   Some (playerOrder startedGame !
                                     ((k + 1) mod length (playerOrder startedGame))),
                                 hasDrawnCard = False\<rparr>))))"
    by blast
  from i f(5) have i0: "i = 0" by simp
  have k0: "k = 0" if "k < length (playerOrder startedGame) \<and> playerOrder startedGame ! k = ''alice''" for k
    using that by (cases k) (simp_all add: f(9))
  from a [rule_format, of 1] have ok:
    "fst (playCard startedGame ''alice'' ''card-74'' 1003) = Inr ()"
    "discardPile (snd (playCard startedGame ''alice'' ''card-74'' 1003)) =
       [\<lparr>card_id = ''card-62'', color = Yellow, rank = 3\<rparr>,
        \<lparr>card_id = ''card-74'', color = Yellow, rank = 9\<rparr>]"
    "currentValue (snd (playCard startedGame ''alice'' ''card-74'' 1003)) = Some 9"
    "\<exists>k. k < length (playerOrder startedGame) \<and> playerOrder startedGame ! k = ''alice'' \<and>
        turn (snd (playCard startedGame ''alice'' ''card-74'' 1003)) =
          Some \<lparr>activePlayerId =
                  Some (playerOrder startedGame ! ((k + 1) mod length (playerOrder startedGame))),
                hasDrawnCard = False\<rparr>"
    unfolding i0 by (simp_all add: f Let_def)
  from ok(4) obtain k where
    kk: "k < length (playerOrder startedGame) \<and> playerOrder startedGame ! k = ''alice''"
    and tk: "turn (snd (playCard startedGame ''alice'' ''card-74'' 1003)) =
          Some \<lparr>activePlayerId =
                  Some (playerOrder startedGame ! ((k + 1) mod length (playerOrder startedGame))),
                hasDrawnCard = False\<rparr>"
    by blast
  from k0 [OF kk] tk have tn: "turn (snd (playCard startedGame ''alice'' ''card-74'' 1003)) =
     Some \<lparr>activePlayerId = Some ''bob'', hasDrawnCard = False\<rparr>"
    by (simp add: f(9))
  \<comment> \<open>card-0 is held and not playable, card-1 is not held\<close>
  from T [of "''alice''" "''card-0''" 1003, THEN conjunct2, THEN conjunct2, THEN conjunct1,
      rule_format, OF ia]
  obtain j where j: "findPlayerIndex startedGame ''alice'' = Some j"
    and b: "\<forall>ci. ci < length (hand (players startedGame ! j)) \<and>
              card_id (hand (players startedGame ! j) ! ci) = ''card-0'' \<longrightarrow>
            (let c = hand (players startedGame ! j) ! ci
             in \<not> (Some (color c) = currentColor startedGame \<or>
                    Some (rank c) = currentValue startedGame) \<longrightarrow>
                  playCard startedGame ''alice'' ''card-0'' 1003 =
                    (Inl CARD_NOT_PLAYABLE, startedGame))"
    unfolding Let_def by blast
  from j f(5) have j0: "j = 0" by simp
  from b [rule_format, of 0] have np:
    "playCard startedGame ''alice'' ''card-0'' 1003 = (Inl CARD_NOT_PLAYABLE, startedGame)"
    unfolding j0 by (simp add: f Let_def)
  from T [of "''alice''" "''card-1''" 1003, THEN conjunct2, THEN conjunct2, THEN conjunct1,
      rule_format, OF ia]
  obtain l where l: "findPlayerIndex startedGame ''alice'' = Some l"
    and c: "''card-1'' \<notin> card_id ` set (hand (players startedGame ! l)) \<longrightarrow>
            playCard startedGame ''alice'' ''card-1'' 1003 = (Inl CARD_NOT_FOUND, startedGame)"
    by blast
  from l f(5) have l0: "l = 0" by simp
  from c have nfd:
    "playCard startedGame ''alice'' ''card-1'' 1003 = (Inl CARD_NOT_FOUND, startedGame)"
    unfolding l0 by (simp add: f)
  from T [of "''bob''" "''card-75''" 1003] f(1,3) have nt:
    "playCard startedGame ''bob'' ''card-75'' 1003 = (Inl NOT_PLAYER_TURN, startedGame)"
    by simp
  have "phase readyGame \<noteq> InProgress" by (simp add: readyGame_eq)
  with playCard_checks_in_order [OF readyGame_reachable, of "''alice''" "''card-0''" 1003]
  have nr: "playCard readyGame ''alice'' ''card-0'' 1003 = (Inl GAME_NOT_READY, readyGame)"
    by simp
  from startedGame_reachable f(1,2) ok(1,2,3) tn np nfd nt nr show ?thesis by simp
qed




section \<open>The phases of a game played to its end\<close>

lemma finished_list_ok:
  assumes "reachable s" and "phase s = Finished" and "findPlayerIndex s p = Some i"
  shows "listPlayableCards s p =
     Inr (filter (\<lambda>c. isCardPlayable c (currentColor s) (currentValue s)) (hand (players s ! i)))"
proof -
  from reachable_inv [OF assms(1)] assms(2) have "dealt s" by (simp add: game_inv_def)
  then have "currentColor s \<noteq> None" "currentValue s \<noteq> None" by (simp_all add: dealt_def)
  with assms(3) show ?thesis by (simp add: listPlayableCards_def)
qed

text \<open>Claim C6, as the code has it. On the reachable states no call moves the phase
  backward along waiting-for-player, ready-to-start, in-progress, finished, and no call
  moves it forward by more than one step. In a state whose phase is finished every call of
  an operation that changes the state fails and leaves the state as it was: \<^verbatim>\<open>joinGame\<close>
  with \<^verbatim>\<open>GAME_ALREADY_STARTED\<close>, \<^verbatim>\<open>startGame\<close> with \<^verbatim>\<open>GAME_ALREADY_STARTED\<close> (with
  \<^verbatim>\<open>NOT_ENOUGH_PLAYERS\<close> if fewer than two players are seated, which no reachable finished
  state has), \<^verbatim>\<open>playCard\<close>, \<^verbatim>\<open>drawCard\<close> and \<^verbatim>\<open>passTurn\<close> with \<^verbatim>\<open>GAME_NOT_READY\<close>. The
  read-only \<^verbatim>\<open>listPlayableCards\<close> is not among them: in a reachable finished state it
  succeeds for every seated player, with the playable cards of that hand.\<close>

theorem phase_only_forward:
  "(reachable s \<longrightarrow>
      phase_rank (phase s) \<le> phase_rank (phase (after_call c s)) \<and>
      phase_rank (phase (after_call c s)) \<le> phase_rank (phase s) + 1) \<and>
   (phase s = Finished \<longrightarrow>
      call_failed c s \<and> after_call c s = s \<and>
      joinGame s p now = (Inl GAME_ALREADY_STARTED, s) \<and>
      startGame s random now =
        (Inl (if length (players s) < 2 then NOT_ENOUGH_PLAYERS else GAME_ALREADY_STARTED), s) \<and>
      (reachable s \<longrightarrow> startGame s random now = (Inl GAME_ALREADY_STARTED, s)) \<and>
      playCard s p cid now = (Inl GAME_NOT_READY, s) \<and>
      drawCard s p random now = (Inl GAME_NOT_READY, s) \<and>
      passTurn s p now = (Inl GAME_NOT_READY, s)) \<and>
   (reachable s \<and> phase s = Finished \<and> findPlayerIndex s p = Some i \<longrightarrow>
      listPlayableCards s p =
        Inr (filter (\<lambda>c. isCardPlayable c (currentColor s) (currentValue s))
               (hand (players s ! i))))"
proof (intro conjI impI)
  show "phase_rank (phase s) \<le> phase_rank (phase (after_call c s))" if "reachable s"
    using reachable_inv [OF that] by (rule call_phase)
  show "phase_rank (phase (after_call c s)) \<le> phase_rank (phase s) + 1" if "reachable s"
    using call_step [OF reachable_inv [OF that], of c] by simp
  show "call_failed c s" if "phase s = Finished"
    by (cases c) (simp_all add: finished_calls [OF that])
  show "after_call c s = s" if "phase s = Finished"
    by (cases c) (simp_all add: finished_calls [OF that])
  show "startGame s random now = (Inl GAME_ALREADY_STARTED, s)"
    if "phase s = Finished" "reachable s"
  proof -
    from reachable_inv [OF that(2)] that(1) have "length (players s) = 2"
      by (simp add: game_inv_def)
    with finished_calls(2) [OF that(1), of random now] show ?thesis by simp
  qed
  show "listPlayableCards s p =
        Inr (filter (\<lambda>c. isCardPlayable c (currentColor s) (currentValue s))
               (hand (players s ! i)))"
    if "reachable s \<and> phase s = Finished \<and> findPlayerIndex s p = Some i"
    using that by (simp add: finished_list_ok)
qed (simp_all add: finished_calls)

lemma finishedGame_facts:
  "phase finishedGame = Finished" "winnerId finishedGame = Some ''bob''"
  "turn finishedGame = None" "findPlayerIndex finishedGame ''alice'' = Some 0"
  "hand (players finishedGame ! 0) = [\<lparr>card_id = ''card-0'', color = Red, rank = 0\<rparr>]"
  "currentColor finishedGame = Some Yellow" "currentValue finishedGame = Some 3"
  "length (players finishedGame) = 2"
  by (simp_all add: finishedGame_eq findPlayerIndex_def)

theorem phase_only_forward_witness:
  "reachable readyGame \<and> phase readyGame = ReadyToStart \<and> phase startedGame = InProgress \<and>
   phase_rank (phase readyGame) \<le> phase_rank (phase startedGame) \<and>
   reachable finishedGame \<and> phase finishedGame = Finished \<and>
   playCard finishedGame ''alice'' ''card-0'' 1018 = (Inl GAME_NOT_READY, finishedGame) \<and>
   drawCard finishedGame ''alice'' (\<lambda>k. unit_zero) 1018 = (Inl GAME_NOT_READY, finishedGame) \<and>
   passTurn finishedGame ''alice'' 1018 = (Inl GAME_NOT_READY, finishedGame) \<and>
   joinGame finishedGame ''alice'' 1018 = (Inl GAME_ALREADY_STARTED, finishedGame) \<and>
   startGame finishedGame (\<lambda>k. unit_zero) 1018 = (Inl GAME_ALREADY_STARTED, finishedGame) \<and>
   listPlayableCards finishedGame ''alice'' = Inr []"
proof -
  have a: "after_call (Start (\<lambda>k. unit_zero) 1002) readyGame = startedGame"
    by (simp add: startedGame_def)
  have b: "phase readyGame = ReadyToStart" by (simp add: readyGame_eq)
  note c = startedGame_facts(1)
  note f = finishedGame_facts
  from phase_only_forward [of readyGame "Start (\<lambda>k. unit_zero) 1002"]
    phase_only_forward [of finishedGame "Pass ''alice'' 1018" "''alice''" 1018 "\<lambda>k. unit_zero"
      "''card-0''" 0]
    readyGame_reachable finishedGame_reachable a b c f
  show ?thesis by (simp add: isCardPlayable_def)
qed

text \<open>The game played to its end is finished, with bob the winner, and a call of
  \<^verbatim>\<open>listPlayableCards\<close> for alice does not fail: it returns the empty list of playable
  cards (her red 0 matches neither yellow nor 3).\<close>

theorem phase_only_forward_counterexample:
  "reachable finishedGame \<and> phase finishedGame = Finished \<and>
   winnerId finishedGame = Some ''bob'' \<and>
   listPlayableCards finishedGame ''alice'' = Inr [] \<and>
   listPlayableCards finishedGame ''bob'' = Inr []"
  using finishedGame_reachable
  by (simp add: finishedGame_eq listPlayableCards_def findPlayerIndex_def isCardPlayable_def)

end
